theory Spec2Isabelle
  imports Main "HOL-Library.Word" "HOL-Library.AList" "HOL-Library.Multiset"
begin

unbundle bit_operations_syntax

section \<open>Data model\<close>

text \<open>
  The code and data buffers of \<^verbatim>\<open>compiler.go\<close> are Go byte slices. Lengths and
  offsets are Go \<^verbatim>\<open>int\<close> values that are never negative (they are all produced by
  \<^verbatim>\<open>len\<close>), so they are natural numbers here; values that come out of the number
  parser are integers.
\<close>

type_synonym byte = "8 word"

text \<open>
  Tokens come from the \<^verbatim>\<open>token\<close> package. The compiler only ever compares a token's
  type against \<^verbatim>\<open>REGISTER\<close>, \<^verbatim>\<open>NUMBER\<close> and \<^verbatim>\<open>IDENTIFIER\<close>; every other
  token type is \<open>OTHER\<close>.
\<close>

datatype token_type = REGISTER | NUMBER | IDENTIFIER | OTHER

record Token =
  Type :: token_type
  Literal :: string

text \<open>\<^verbatim>\<open>parser.Instruction\<close>: the mnemonic and the operand tokens.\<close>

record Instruction =
  Instruction :: string
  Operands :: "Token list"

text \<open>
  The nodes \<^verbatim>\<open>parser.Next\<close> hands out, one constructor per arm of the type switch in
  \<^verbatim>\<open>Compile\<close>; \<open>Unhandled\<close> is any node that reaches the \<^verbatim>\<open>default\<close> arm.
\<close>

datatype Node =
    Data string "byte list"
  | Error string
  | Label string
  | Instr Instruction
  | Unhandled

text \<open>
  Every \<^verbatim>\<open>fmt.Errorf\<close> of the file is one constructor. \<open>PanicIndex\<close> is the run-time
  panic of an index out of range (an operand that is not there, a write past the end of
  the code buffer): the process dies there, and the state paired with it is the one
  before the failing access.
\<close>

datatype error =
    ParserError string
  | UnhandledNode
  | UnknownInstruction
  | ConvertError
  | AddNotImplemented
  | UnhandledADD
  | UnknownDEC
  | UnknownINC
  | MovUnknownRegister
  | UnknownData
  | UnknownMOV
  | UnknownPush
  | SubNotImplemented
  | UnhandledSUB
  | UnknownXOR
  | ElfWriteError string
  | PanicIndex

text \<open>
  The \<^verbatim>\<open>Compiler\<close> struct. The parser field is the list of nodes given to \<open>walk\<close>.
  The two patch maps are ranged over, so they are association lists with distinct keys
  (written with \<open>AList.update\<close>); the two symbol tables are only looked up.
\<close>

record Compiler =
  output_path :: string
  code :: "byte list"
  data :: "byte list"
  dataOffsets :: "string \<rightharpoonup> nat"
  patches :: "(nat \<times> int) list"
  labels :: "string \<rightharpoonup> nat"
  labelTargets :: "(nat \<times> string) list"

definition New :: Compiler where
  "New = \<lparr>output_path = ''a.out'', code = [], data = [], dataOffsets = Map.empty,
          patches = [], labels = Map.empty, labelTargets = []\<rparr>"

definition SetOutput :: "string \<Rightarrow> Compiler \<Rightarrow> Compiler" where
  "SetOutput path c = c\<lparr>output_path := path\<rparr>"

text \<open>Indexing a slice: \<open>None\<close> is the index-out-of-range panic.\<close>

definition idx :: "'a list \<Rightarrow> nat \<Rightarrow> 'a option" where
  "idx xs k = (if k < length xs then Some (xs ! k) else None)"

section \<open>The Go library functions the compiler calls\<close>

subsection \<open>\<^verbatim>\<open>strconv.ParseInt\<close> and \<^verbatim>\<open>strconv.Atoi\<close>\<close>

text \<open>
  These are functions of Go's standard library, written here after
  \<^verbatim>\<open>strconv/atoi.go\<close>, on a 64-bit platform (\<^verbatim>\<open>IntSize = 64\<close>). A string is a
  list of bytes. Both return a value and an error, as in Go: the value is 0 at a
  syntax error and the nearest bound at a range error.
\<close>

datatype num_error = ErrSyntax | ErrRange | ErrBase | ErrBitSize

definition lower :: "char \<Rightarrow> char" where
  "lower c = char_of ((of_char c :: nat) OR 32)"

definition digit_val :: "char \<Rightarrow> nat option" where
  "digit_val c =
     (if 48 \<le> (of_char c :: nat) \<and> (of_char c :: nat) \<le> 57 then Some (of_char c - 48)
      else if 97 \<le> (of_char (lower c) :: nat) \<and> (of_char (lower c) :: nat) \<le> 122
           then Some (of_char (lower c) - 97 + 10)
      else None)"

datatype loop_result = Done nat bool | Fail nat num_error

text \<open>
  The digit loop of \<^verbatim>\<open>ParseUint\<close>. \<open>n\<close> is the \<^verbatim>\<open>uint64\<close> accumulator, so the
  product and the sum wrap at \<open>2 ^ 64\<close>; the flag records that an underscore was seen.
\<close>

fun parse_loop :: "bool \<Rightarrow> nat \<Rightarrow> nat \<Rightarrow> string \<Rightarrow> nat \<Rightarrow> bool \<Rightarrow> loop_result" where
  "parse_loop base0 base maxVal [] n us = Done n us"
| "parse_loop base0 base maxVal (c # cs) n us =
     (if c = CHR ''_'' \<and> base0 then parse_loop base0 base maxVal cs n True
      else case digit_val c of
        None \<Rightarrow> Fail 0 ErrSyntax
      | Some d \<Rightarrow>
          if d \<ge> base then Fail 0 ErrSyntax
          else if n \<ge> (2 ^ 64 - 1) div base + 1 then Fail maxVal ErrRange
          else
            let nb = (n * base) mod 2 ^ 64;
                n1 = (nb + d) mod 2 ^ 64
            in if n1 < nb \<or> n1 > maxVal then Fail maxVal ErrRange
               else parse_loop base0 base maxVal cs n1 us)"

text \<open>
  \<^verbatim>\<open>underscoreOK\<close>: underscores may only separate digits, or a base prefix from a
  digit. \<open>saw\<close> is the last kind of byte seen: \<open>CHR ''^''\<close> at the start, \<open>CHR ''0''\<close> a
  digit (or the prefix), \<open>CHR ''_''\<close> an underscore, \<open>CHR ''!''\<close> anything else.
\<close>

fun underscore_scan :: "bool \<Rightarrow> char \<Rightarrow> string \<Rightarrow> bool" where
  "underscore_scan hex saw [] = (saw \<noteq> CHR ''_'')"
| "underscore_scan hex saw (c # cs) =
     (if (48 \<le> (of_char c :: nat) \<and> (of_char c :: nat) \<le> 57)
         \<or> (hex \<and> 97 \<le> (of_char (lower c) :: nat) \<and> (of_char (lower c) :: nat) \<le> 102)
      then underscore_scan hex (CHR ''0'') cs
      else if c = CHR ''_'' then
        (if saw \<noteq> CHR ''0'' then False else underscore_scan hex (CHR ''_'') cs)
      else if saw = CHR ''_'' then False
      else underscore_scan hex (CHR ''!'') cs)"

definition strip_sign :: "string \<Rightarrow> string" where
  "strip_sign s = (case s of c # cs \<Rightarrow> if c = CHR ''-'' \<or> c = CHR ''+'' then cs else s | [] \<Rightarrow> s)"

definition underscoreOK :: "string \<Rightarrow> bool" where
  "underscoreOK s0 =
     (let s = strip_sign s0 in
      case s of
        a # b # rest \<Rightarrow>
          if a = CHR ''0'' \<and> (lower b = CHR ''b'' \<or> lower b = CHR ''o'' \<or> lower b = CHR ''x'')
          then underscore_scan (lower b = CHR ''x'') (CHR ''0'') rest
          else underscore_scan False (CHR ''^'') s
      | _ \<Rightarrow> underscore_scan False (CHR ''^'') s)"

text \<open>The base a prefix selects when \<^verbatim>\<open>base == 0\<close>, and the text after the prefix.\<close>

definition base_prefix :: "string \<Rightarrow> nat \<times> string" where
  "base_prefix s =
     (case s of
        [] \<Rightarrow> (10, s)
      | a # r \<Rightarrow>
          if a \<noteq> CHR ''0'' then (10, s)
          else if length s \<ge> 3 \<and> lower (hd r) = CHR ''b'' then (2, tl r)
          else if length s \<ge> 3 \<and> lower (hd r) = CHR ''o'' then (8, tl r)
          else if length s \<ge> 3 \<and> lower (hd r) = CHR ''x'' then (16, tl r)
          else (8, r))"

definition ParseUint :: "string \<Rightarrow> nat \<Rightarrow> nat \<Rightarrow> nat \<times> num_error option" where
  "ParseUint s base bitSize =
     (if s = [] then (0, Some ErrSyntax)
      else if \<not> (base = 0 \<or> (2 \<le> base \<and> base \<le> 36)) then (0, Some ErrBase)
      else if bitSize > 64 then (0, Some ErrBitSize)
      else
        let (b, digits) = (if base = 0 then base_prefix s else (base, s));
            bits = (if bitSize = 0 then 64 else bitSize);
            maxVal = 2 ^ bits - 1
        in case parse_loop (base = 0) b maxVal digits 0 False of
             Fail v e \<Rightarrow> (v, Some e)
           | Done n us \<Rightarrow>
               if us \<and> \<not> underscoreOK s then (0, Some ErrSyntax) else (n, None))"

definition ParseInt :: "string \<Rightarrow> nat \<Rightarrow> nat \<Rightarrow> int \<times> num_error option" where
  "ParseInt s0 base bitSize =
     (if s0 = [] then (0, Some ErrSyntax)
      else
        let neg = (hd s0 = CHR ''-'');
            s = (if hd s0 = CHR ''+'' \<or> hd s0 = CHR ''-'' then tl s0 else s0);
            (un, err) = ParseUint s base bitSize
        in if err \<noteq> None \<and> err \<noteq> Some ErrRange then (0, err)
           else
             let bits = (if bitSize = 0 then 64 else bitSize);
                 cutoff = (2 :: nat) ^ (bits - 1)
             in if \<not> neg \<and> un \<ge> cutoff then (int cutoff - 1, Some ErrRange)
                else if neg \<and> un > cutoff then (- int cutoff, Some ErrRange)
                else (if neg then - int un else int un, None))"

definition Atoi :: "string \<Rightarrow> int \<times> num_error option" where
  "Atoi s = ParseInt s 10 0"

subsection \<open>\<^verbatim>\<open>fmt.Sprintf("%d", v)\<close>\<close>

definition digit_char :: "nat \<Rightarrow> char" where
  "digit_char d = char_of (48 + d)"

fun digits10 :: "nat \<Rightarrow> string" where
  "digits10 n = (if n < 10 then [digit_char n] else digits10 (n div 10) @ [digit_char (n mod 10)])"

declare digits10.simps [simp del]

definition sprintf_d :: "int \<Rightarrow> string" where
  "sprintf_d v = (if v < 0 then CHR ''-'' # digits10 (nat (- v)) else digits10 (nat v))"

subsection \<open>\<^verbatim>\<open>binary.LittleEndian.PutUint32\<close> and the conversion \<^verbatim>\<open>uint32(v)\<close>\<close>

definition uint32 :: "int \<Rightarrow> 32 word" where
  "uint32 v = word_of_int v"

definition PutUint32 :: "32 word \<Rightarrow> byte list" where
  "PutUint32 v = [ucast v, ucast (drop_bit 8 v), ucast (drop_bit 16 v), ucast (drop_bit 24 v)]"

section \<open>The instruction encoder\<close>

text \<open>
  A method of \<^verbatim>\<open>*Compiler\<close> that returns \<^verbatim>\<open>error\<close> is a function from the state to
  the error (\<open>None\<close> is \<^verbatim>\<open>nil\<close>) and the state it leaves behind: Go mutates the
  receiver also on the paths that return an error.
\<close>

type_synonym result = "error option \<times> Compiler"

definition emit :: "byte list \<Rightarrow> Compiler \<Rightarrow> Compiler" where
  "emit bs c = c\<lparr>code := code c @ bs\<rparr>"

text \<open>\<^verbatim>\<open>argToByte\<close>, used by \<^verbatim>\<open>int\<close>.\<close>

definition argToByte :: "Token \<Rightarrow> error + byte" where
  "argToByte t =
     (case ParseInt (Literal t) 0 64 of
        (num, Some e) \<Rightarrow> Inl ConvertError
      | (num, None) \<Rightarrow> Inr (word_of_int num))"

text \<open>\<^verbatim>\<open>argToByteArray\<close>, used by \<^verbatim>\<open>mov\<close>, \<^verbatim>\<open>add\<close>, \<^verbatim>\<open>sub\<close> and \<^verbatim>\<open>push\<close>.\<close>

definition argToByteArray :: "Token \<Rightarrow> error + byte list" where
  "argToByteArray t =
     (case ParseInt (Literal t) 0 64 of
        (num, Some e) \<Rightarrow> Inl ConvertError
      | (num, None) \<Rightarrow> Inr (PutUint32 (uint32 num)))"

text \<open>The register-register table of \<^verbatim>\<open>assembleADD\<close>, keyed by the two literals.\<close>

definition add_codes :: "((string \<times> string) \<times> byte list) list" where
  "add_codes =
    [((''rax'', ''rax''), [0x48, 0x01, 0xc0]),
     ((''rax'', ''rbx''), [0x48, 0x01, 0xd8]),
     ((''rax'', ''rcx''), [0x48, 0x01, 0xc8]),
     ((''rax'', ''rdx''), [0x48, 0x01, 0xd0]),
     ((''rbx'', ''rax''), [0x48, 0x01, 0xc3]),
     ((''rbx'', ''rbx''), [0x48, 0x01, 0xdb]),
     ((''rbx'', ''rcx''), [0x48, 0x01, 0xcb]),
     ((''rbx'', ''rdx''), [0x48, 0x01, 0xd3]),
     ((''rcx'', ''rax''), [0x48, 0x01, 0xc1]),
     ((''rcx'', ''rbx''), [0x48, 0x01, 0xd9]),
     ((''rcx'', ''rcx''), [0x48, 0x01, 0xc9]),
     ((''rcx'', ''rdx''), [0x48, 0x01, 0xd1]),
     ((''rdx'', ''rax''), [0x48, 0x01, 0xc2]),
     ((''rdx'', ''rbx''), [0x48, 0x01, 0xda]),
     ((''rdx'', ''rcx''), [0x48, 0x01, 0xca]),
     ((''rdx'', ''rdx''), [0x48, 0x01, 0xd2])]"

definition assembleADD :: "Instruction \<Rightarrow> Compiler \<Rightarrow> result" where
  "assembleADD i c =
     (case (idx (Operands i) 0, idx (Operands i) 1) of
        (Some a, Some b) \<Rightarrow>
          (case map_of add_codes (Literal a, Literal b) of
             Some bytes \<Rightarrow> (None, emit bytes c)
           | None \<Rightarrow>
               if Type a = REGISTER \<and> Type b = NUMBER then
                 (case argToByteArray b of
                    Inl e \<Rightarrow> (Some e, c)
                  | Inr n \<Rightarrow>
                      if Literal a = ''rax'' then (None, emit n (emit [0x48, 0x05] c))
                      else if Literal a = ''rbx'' then (None, emit n (emit [0x48, 0x81, 0xc3] c))
                      else if Literal a = ''rcx'' then (None, emit n (emit [0x48, 0x81, 0xc1] c))
                      else if Literal a = ''rdx'' then (None, emit n (emit [0x48, 0x81, 0xc2] c))
                      else (Some AddNotImplemented, c))
               else (Some UnhandledADD, c))
      | _ \<Rightarrow> (Some PanicIndex, c))"

definition dec_table :: "(string \<times> byte list) list" where
  "dec_table =
    [(''rax'', [0x48, 0xff, 0xc8]),
     (''rbx'', [0x48, 0xff, 0xcb]),
     (''rcx'', [0x48, 0xff, 0xc9]),
     (''rdx'', [0x48, 0xff, 0xca])]"

definition assembleDEC :: "Instruction \<Rightarrow> Compiler \<Rightarrow> result" where
  "assembleDEC i c =
     (case idx (Operands i) 0 of
        None \<Rightarrow> (Some PanicIndex, c)
      | Some a \<Rightarrow>
          (case map_of dec_table (Literal a) of
             Some bytes \<Rightarrow> (None, emit bytes c)
           | None \<Rightarrow> (Some UnknownDEC, c)))"

definition inc_table :: "(string \<times> byte list) list" where
  "inc_table =
    [(''rax'', [0x48, 0xff, 0xc0]),
     (''rbx'', [0x48, 0xff, 0xc3]),
     (''rcx'', [0x48, 0xff, 0xc1]),
     (''rdx'', [0x48, 0xff, 0xc2])]"

definition assembleINC :: "Instruction \<Rightarrow> Compiler \<Rightarrow> result" where
  "assembleINC i c =
     (case idx (Operands i) 0 of
        None \<Rightarrow> (Some PanicIndex, c)
      | Some a \<Rightarrow>
          (case map_of inc_table (Literal a) of
             Some bytes \<Rightarrow> (None, emit bytes c)
           | None \<Rightarrow> (Some UnknownINC, c)))"

text \<open>
  The four register arms of \<^verbatim>\<open>assembleMov\<close> for a number are the same code with a
  different opcode: the opcode is appended, then the number is converted (an error
  leaves the opcode in the buffer), then the patch is recorded at the current length
  when \<open>label\<close> is set (the error of \<^verbatim>\<open>Atoi\<close> is dropped), then the four bytes are
  appended.
\<close>

definition mov_number :: "byte list \<Rightarrow> Token \<Rightarrow> bool \<Rightarrow> Compiler \<Rightarrow> result" where
  "mov_number opcode t label c =
     (let c1 = emit opcode c in
      case argToByteArray t of
        Inl e \<Rightarrow> (Some e, c1)
      | Inr n \<Rightarrow>
          let c2 = (if label
                    then c1\<lparr>patches := AList.update (length (code c1)) (fst (Atoi (Literal t))) (patches c1)\<rparr>
                    else c1)
          in (None, emit n c2))"

text \<open>
  \<^verbatim>\<open>assembleMov\<close>. The conditions are evaluated left to right, so the second operand
  is only read when the first one is a register. For an identifier found in
  \<^verbatim>\<open>dataOffsets\<close> the second operand is rewritten to a number holding the decimal text
  of the offset and the function calls itself with \<open>label\<close> set.
\<close>

function assembleMov :: "Instruction \<Rightarrow> bool \<Rightarrow> Compiler \<Rightarrow> result" where
  "assembleMov i label c =
     (case idx (Operands i) 0 of
        None \<Rightarrow> (Some PanicIndex, c)
      | Some a \<Rightarrow>
          if Type a \<noteq> REGISTER then (Some UnknownMOV, c)
          else
            (case idx (Operands i) 1 of
               None \<Rightarrow> (Some PanicIndex, c)
             | Some b \<Rightarrow>
                 if Type b = REGISTER then (None, c)
                 else if Type b = NUMBER then
                   (if Literal a = ''rax'' then mov_number [0x48, 0xc7, 0xc0] b label c
                    else if Literal a = ''rbx'' then mov_number [0x48, 0xc7, 0xc3] b label c
                    else if Literal a = ''rcx'' then mov_number [0x48, 0xc7, 0xc1] b label c
                    else if Literal a = ''rdx'' then mov_number [0x48, 0xc7, 0xc2] b label c
                    else (Some MovUnknownRegister, c))
                 else if Type b = IDENTIFIER then
                   (case dataOffsets c (Literal b) of
                      Some val \<Rightarrow>
                        assembleMov
                          (i\<lparr>Operands := (Operands i)
                               [1 := b\<lparr>Type := NUMBER, Literal := sprintf_d (int val)\<rparr>]\<rparr>)
                          True c
                    | None \<Rightarrow> (Some UnknownData, c))
                 else (Some UnknownMOV, c)))"
  by pat_completeness auto
termination
  by (relation "measure (\<lambda>(i, label, c).
        if 1 < length (Operands i) \<and> Type (Operands i ! 1) = IDENTIFIER then 1 else 0)")
     (auto simp: idx_def split: if_splits)

declare assembleMov.simps [simp del]

text \<open>
  \<^verbatim>\<open>assemblePush\<close>. The number arm converts \<^verbatim>\<open>i.Operands[1]\<close>, as the source does.
\<close>

definition assemblePush :: "Instruction \<Rightarrow> Compiler \<Rightarrow> result" where
  "assemblePush i c =
     (case idx (Operands i) 0 of
        None \<Rightarrow> (Some PanicIndex, c)
      | Some a \<Rightarrow>
          if Type a = NUMBER then
            (case idx (Operands i) 1 of
               None \<Rightarrow> (Some PanicIndex, c)
             | Some b \<Rightarrow>
                 (case argToByteArray b of
                    Inl e \<Rightarrow> (Some e, c)
                  | Inr n \<Rightarrow> (None, emit n (emit [0x68] c))))
          else if Type a = IDENTIFIER then
            (let c1 = emit [0x68] c;
                 c2 = c1\<lparr>labelTargets := AList.update (length (code c1)) (Literal a) (labelTargets c1)\<rparr>
             in (None, emit [0x0, 0x0, 0x0, 0x0] c2))
          else (Some UnknownPush, c))"

definition sub_codes :: "((string \<times> string) \<times> byte list) list" where
  "sub_codes =
    [((''rax'', ''rax''), [0x48, 0x29, 0xc0]),
     ((''rax'', ''rbx''), [0x48, 0x29, 0xd8]),
     ((''rax'', ''rcx''), [0x48, 0x29, 0xc8]),
     ((''rax'', ''rdx''), [0x48, 0x29, 0xd0]),
     ((''rbx'', ''rax''), [0x48, 0x29, 0xc3]),
     ((''rbx'', ''rbx''), [0x48, 0x29, 0xdb]),
     ((''rbx'', ''rcx''), [0x48, 0x29, 0xcb]),
     ((''rbx'', ''rdx''), [0x48, 0x29, 0xd3]),
     ((''rcx'', ''rax''), [0x48, 0x29, 0xc1]),
     ((''rcx'', ''rbx''), [0x48, 0x29, 0xd9]),
     ((''rcx'', ''rcx''), [0x48, 0x29, 0xc9]),
     ((''rcx'', ''rdx''), [0x48, 0x29, 0xd1]),
     ((''rdx'', ''rax''), [0x48, 0x29, 0xc2]),
     ((''rdx'', ''rbx''), [0x48, 0x29, 0xda]),
     ((''rdx'', ''rcx''), [0x48, 0x29, 0xca]),
     ((''rdx'', ''rdx''), [0x48, 0x29, 0xd2])]"

definition assembleSUB :: "Instruction \<Rightarrow> Compiler \<Rightarrow> result" where
  "assembleSUB i c =
     (case (idx (Operands i) 0, idx (Operands i) 1) of
        (Some a, Some b) \<Rightarrow>
          (case map_of sub_codes (Literal a, Literal b) of
             Some bytes \<Rightarrow> (None, emit bytes c)
           | None \<Rightarrow>
               if Type a = REGISTER \<and> Type b = NUMBER then
                 (case argToByteArray b of
                    Inl e \<Rightarrow> (Some e, c)
                  | Inr n \<Rightarrow>
                      if Literal a = ''rax'' then (None, emit n (emit [0x48, 0x2d] c))
                      else if Literal a = ''rbx'' then (None, emit n (emit [0x48, 0x81, 0xeb] c))
                      else if Literal a = ''rcx'' then (None, emit n (emit [0x48, 0x81, 0xe9] c))
                      else if Literal a = ''rdx'' then (None, emit n (emit [0x48, 0x81, 0xea] c))
                      else (Some SubNotImplemented, c))
               else (Some UnhandledSUB, c))
      | _ \<Rightarrow> (Some PanicIndex, c))"

definition assembleXOR :: "Instruction \<Rightarrow> Compiler \<Rightarrow> result" where
  "assembleXOR i c =
     (case idx (Operands i) 0 of
        None \<Rightarrow> (Some PanicIndex, c)
      | Some a \<Rightarrow>
          if Literal a = ''rax'' then (None, emit [0x48, 0x31, 0xc0] c)
          else if Literal a = ''rbx'' then (None, emit [0x48, 0x31, 0xdb] c)
          else if Literal a = ''rcx'' then (None, emit [0x48, 0x31, 0xc9] c)
          else if Literal a = ''rdx'' then (None, emit [0x48, 0x31, 0xd2] c)
          else (Some UnknownXOR, c))"

definition compileInstruction :: "Instruction \<Rightarrow> Compiler \<Rightarrow> result" where
  "compileInstruction i c =
     (if Instruction i = ''add'' then assembleADD i c
      else if Instruction i = ''dec'' then assembleDEC i c
      else if Instruction i = ''inc'' then assembleINC i c
      else if Instruction i = ''int'' then
        (case idx (Operands i) 0 of
           None \<Rightarrow> (Some PanicIndex, c)
         | Some t \<Rightarrow>
             (case argToByte t of
                Inl e \<Rightarrow> (Some e, c)
              | Inr n \<Rightarrow> (None, emit [n] (emit [0xcd] c))))
      else if Instruction i = ''mov'' then assembleMov i False c
      else if Instruction i = ''nop'' then (None, emit [0x90] c)
      else if Instruction i = ''push'' then assemblePush i c
      else if Instruction i = ''ret'' then (None, emit [0xc3] c)
      else if Instruction i = ''sub'' then assembleSUB i c
      else if Instruction i = ''xor'' then assembleXOR i c
      else (Some UnknownInstruction, c))"

section \<open>The compilation driver\<close>

text \<open>\<^verbatim>\<open>handleData\<close>: the block goes to the end of the data, its name to the old length.\<close>

definition handleData :: "string \<Rightarrow> byte list \<Rightarrow> Compiler \<Rightarrow> Compiler" where
  "handleData name contents c =
     c\<lparr>data := data c @ contents, dataOffsets := (dataOffsets c)(name \<mapsto> length (data c))\<rparr>"

text \<open>The loop over the parser's nodes (the first loop of \<^verbatim>\<open>Compile\<close>).\<close>

fun walk :: "Node list \<Rightarrow> Compiler \<Rightarrow> result" where
  "walk [] c = (None, c)"
| "walk (stmt # rest) c =
     (case stmt of
        Data name contents \<Rightarrow> walk rest (handleData name contents c)
      | Error v \<Rightarrow> (Some (ParserError v), c)
      | Label name \<Rightarrow> walk rest (c\<lparr>labels := (labels c)(name \<mapsto> length (code c))\<rparr>)
      | Instr i \<Rightarrow>
          (case compileInstruction i c of
             (Some e, c') \<Rightarrow> (Some e, c')
           | (None, c') \<Rightarrow> walk rest c')
      | Unhandled \<Rightarrow> (Some UnhandledNode, c))"

text \<open>
  \<^verbatim>\<open>for i, x := range buf { c.code[i+o] = x }\<close>: one byte at a time, and a panic
  (\<open>None\<close>) at the first index past the end of the buffer.
\<close>

fun store :: "byte list \<Rightarrow> nat \<Rightarrow> byte list \<Rightarrow> byte list option" where
  "store cd off [] = Some cd"
| "store cd off (x # xs) =
     (if off < length cd then store (cd[off := x]) (Suc off) xs else None)"

text \<open>
  The data-patch loop, over the entries in the order the range statement yields them.
  The address is \<^verbatim>\<open>0x400000 + v + len(c.code) + 0x40 + (2 * 0x38)\<close>.
\<close>

fun applyPatches :: "(nat \<times> int) list \<Rightarrow> Compiler \<Rightarrow> result" where
  "applyPatches [] c = (None, c)"
| "applyPatches ((off, v) # ps) c =
     (case store (code c) off
             (PutUint32 (uint32 (0x400000 + v + int (length (code c)) + 0x40 + (2 * 0x38)))) of
        None \<Rightarrow> (Some PanicIndex, c)
      | Some cd \<Rightarrow> applyPatches ps (c\<lparr>code := cd\<rparr>))"

text \<open>
  The label-patch loop. A Go map read of a missing key gives the zero value, so a label
  that was never defined has offset 0. The address is
  \<^verbatim>\<open>0x400000 + offset + 0x40 + (2 * 0x38)\<close>.
\<close>

fun applyLabels :: "(nat \<times> string) list \<Rightarrow> Compiler \<Rightarrow> result" where
  "applyLabels [] c = (None, c)"
| "applyLabels ((off, s) # ls) c =
     (let offset = (case labels c s of Some k \<Rightarrow> int k | None \<Rightarrow> 0) in
      case store (code c) off (PutUint32 (uint32 (0x400000 + offset + 0x40 + (2 * 0x38)))) of
        None \<Rightarrow> (Some PanicIndex, c)
      | Some cd \<Rightarrow> applyLabels ls (c\<lparr>code := cd\<rparr>))"

text \<open>
  \<^verbatim>\<open>Compile\<close>. Go leaves the order in which a range statement visits a map
  unspecified: \<open>rp\<close> and \<open>rl\<close> are that order for the two patch maps, functions that
  return the entries of a map in some order. \<open>WriteContent\<close> is the image emitter
  (\<^verbatim>\<open>elf.WriteContent\<close>, another package): it gets the path and the two final buffers
  and returns an error message or nothing.
\<close>

definition range_order :: "('a list \<Rightarrow> 'a list) \<Rightarrow> bool" where
  "range_order r = (\<forall>m. mset (r m) = mset m)"

definition Compile ::
  "((nat \<times> int) list \<Rightarrow> (nat \<times> int) list) \<Rightarrow> ((nat \<times> string) list \<Rightarrow> (nat \<times> string) list) \<Rightarrow>
   (string \<Rightarrow> byte list \<Rightarrow> byte list \<Rightarrow> string option) \<Rightarrow> Node list \<Rightarrow> Compiler \<Rightarrow> result" where
  "Compile rp rl WriteContent stmts c0 =
     (case walk stmts c0 of
        (Some e, c) \<Rightarrow> (Some e, c)
      | (None, c) \<Rightarrow>
          (case applyPatches (rp (patches c)) c of
             (Some e, c1) \<Rightarrow> (Some e, c1)
           | (None, c1) \<Rightarrow>
               (case applyLabels (rl (labelTargets c1)) c1 of
                  (Some e, c2) \<Rightarrow> (Some e, c2)
                | (None, c2) \<Rightarrow>
                    (case WriteContent (output_path c2) (code c2) (data c2) of
                       Some msg \<Rightarrow> (Some (ElfWriteError msg), c2)
                     | None \<Rightarrow> (None, c2)))))"

section \<open>Notions used to state the properties\<close>

text \<open>The four register names every table of the encoder is keyed by.\<close>

definition registers :: "string list" where
  "registers = [''rax'', ''rbx'', ''rcx'', ''rdx'']"

text \<open>The layout constants: the load address and the size of the header region.\<close>

definition loadBase :: int where
  "loadBase = 0x400000"

definition headerSize :: int where
  "headerSize = 0x40 + 2 * 0x38"

text \<open>The four bytes of a buffer that start at an offset.\<close>

definition window :: "byte list \<Rightarrow> nat \<Rightarrow> byte list" where
  "window cd off = take 4 (drop off cd)"

text \<open>The buffer with the bytes \<open>bs\<close> written over it from \<open>off\<close> on.\<close>

definition overwrite :: "byte list \<Rightarrow> nat \<Rightarrow> byte list \<Rightarrow> byte list" where
  "overwrite cd off bs = take off cd @ bs @ drop (off + length bs) cd"

definition write_all :: "(nat \<times> byte list) list \<Rightarrow> byte list \<Rightarrow> byte list" where
  "write_all ws cd = fold (\<lambda>(off, bs) b. overwrite b off bs) ws cd"

text \<open>
  The writes of the two patch loops, and the state after both loops with the entries
  taken in the order they were recorded.
\<close>

definition data_writes :: "Compiler \<Rightarrow> (nat \<times> byte list) list" where
  "data_writes c =
     map (\<lambda>(off, v). (off, PutUint32 (uint32 (0x400000 + v + int (length (code c)) + 0x40 + (2 * 0x38)))))
       (patches c)"

definition label_writes :: "Compiler \<Rightarrow> (nat \<times> byte list) list" where
  "label_writes c =
     map (\<lambda>(off, s). (off, PutUint32 (uint32
            (0x400000 + (case labels c s of Some k \<Rightarrow> int k | None \<Rightarrow> 0) + 0x40 + (2 * 0x38)))))
       (labelTargets c)"

definition resolve :: "Compiler \<Rightarrow> Compiler" where
  "resolve c = c\<lparr>code := write_all (label_writes c) (write_all (data_writes c) (code c))\<rparr>"

text \<open>
  Two four-byte windows that do not overlap; offsets that are pairwise different, whose
  windows lie inside a buffer of length \<open>n\<close> and do not overlap.
\<close>

definition apart :: "nat \<Rightarrow> nat \<Rightarrow> bool" where
  "apart p q \<longleftrightarrow> p + 4 \<le> q \<or> q + 4 \<le> p"

definition separate :: "nat list \<Rightarrow> nat \<Rightarrow> bool" where
  "separate os n \<longleftrightarrow>
     distinct os \<and> (\<forall>p\<in>set os. p + 4 \<le> n) \<and> (\<forall>p\<in>set os. \<forall>q\<in>set os. p \<noteq> q \<longrightarrow> apart p q)"

definition offsets :: "Compiler \<Rightarrow> nat list" where
  "offsets c = map fst (patches c) @ map fst (labelTargets c)"

text \<open>
  The invariant of the first loop of \<^verbatim>\<open>Compile\<close>: the patched windows are separate and
  inside the code, a data patch points at the encoding of its own value and a label
  patch at four zero bytes.
\<close>

definition wf :: "Compiler \<Rightarrow> bool" where
  "wf c \<longleftrightarrow>
     separate (offsets c) (length (code c)) \<and>
     (\<forall>(p, v)\<in>set (patches c). window (code c) p = PutUint32 (uint32 v)) \<and>
     (\<forall>(p, s)\<in>set (labelTargets c). window (code c) p = [0, 0, 0, 0])"

text \<open>
  What one node of the stream can do to the state: append code, record a data patch in
  front of the four bytes that encode its value, record a label patch in front of four
  zero bytes, or change a symbol table or the data.
\<close>

inductive grows :: "Compiler \<Rightarrow> Compiler \<Rightarrow> bool" where
  emitted: "grows c (emit bs c)"
| data_ref:
    "grows c (emit (PutUint32 (uint32 v))
       ((emit op c)\<lparr>patches := AList.update (length (code c) + length op) v (patches c)\<rparr>))"
| label_ref:
    "grows c (emit [0, 0, 0, 0]
       ((emit op c)\<lparr>labelTargets := AList.update (length (code c) + length op) s (labelTargets c)\<rparr>))"
| tables: "grows c (c\<lparr>data := d, dataOffsets := offs, labels := ls\<rparr>)"

text \<open>The stream used as an example: two data blocks, a reference to the second, a push of a label.\<close>

definition example_stream :: "Node list" where
  "example_stream =
     [Data ''a'' [1], Data ''b'' [2],
      Instr \<lparr>Instruction = ''mov'',
             Operands = [\<lparr>Type = REGISTER, Literal = ''rax''\<rparr>, \<lparr>Type = IDENTIFIER, Literal = ''b''\<rparr>]\<rparr>,
      Instr \<lparr>Instruction = ''push'', Operands = [\<lparr>Type = IDENTIFIER, Literal = ''l''\<rparr>]\<rparr>,
      Label ''l'',
      Instr \<lparr>Instruction = ''ret'', Operands = []\<rparr>]"

section \<open>The decimal text of an offset parses back to the offset\<close>

lemma of_char_digit_char: "d < 10 \<Longrightarrow> (of_char (digit_char d) :: nat) = 48 + d"
  by (simp add: digit_char_def)

lemma digit_val_digit_char: "d < 10 \<Longrightarrow> digit_val (digit_char d) = Some d"
  by (simp add: digit_val_def of_char_digit_char)

lemma digit_char_not_sign:
  assumes "d < 10"
  shows "digit_char d \<noteq> CHR ''_''" "digit_char d \<noteq> CHR ''-''" "digit_char d \<noteq> CHR ''+''"
proof -
  have e: "(of_char (digit_char d) :: nat) = 48 + d" using assms by (rule of_char_digit_char)
  show "digit_char d \<noteq> CHR ''_''" using e assms by auto
  show "digit_char d \<noteq> CHR ''-''" using e assms by auto
  show "digit_char d \<noteq> CHR ''+''" using e assms by auto
qed

lemma digit_char_zero:
  assumes "d < 10"
  shows "digit_char d = CHR ''0'' \<longleftrightarrow> d = 0"
proof
  assume "digit_char d = CHR ''0''"
  then have "(of_char (digit_char d) :: nat) = of_char (CHR ''0'')" by simp
  then show "d = 0" using of_char_digit_char [OF assms] by simp
next
  assume "d = 0"
  then have "(of_char (digit_char d) :: nat) = of_char (CHR ''0'')"
    using of_char_digit_char [OF assms] by simp
  then show "digit_char d = CHR ''0''" by (rule of_char_eqI)
qed

lemma parse_loop_append_True:
  "parse_loop True b M (xs @ ys) n us =
     (case parse_loop True b M xs n us of
        Done n' us' \<Rightarrow> parse_loop True b M ys n' us'
      | Fail v e \<Rightarrow> Fail v e)"
  by (induction xs arbitrary: n us) (simp_all add: Let_def split: option.splits)

lemma parse_loop_append_False:
  "parse_loop False b M (xs @ ys) n us =
     (case parse_loop False b M xs n us of
        Done n' us' \<Rightarrow> parse_loop False b M ys n' us'
      | Fail v e \<Rightarrow> Fail v e)"
  by (induction xs arbitrary: n us) (simp_all add: Let_def split: option.splits)

lemma parse_loop_append:
  "parse_loop b0 b M (xs @ ys) n us =
     (case parse_loop b0 b M xs n us of
        Done n' us' \<Rightarrow> parse_loop b0 b M ys n' us'
      | Fail v e \<Rightarrow> Fail v e)"
  by (cases b0) (simp_all only: parse_loop_append_True parse_loop_append_False)

lemma digits10_small: "n < 10 \<Longrightarrow> digits10 n = [digit_char n]"
  by (subst digits10.simps) simp
lemma digits10_big: "\<not> n < 10 \<Longrightarrow> digits10 n = digits10 (n div 10) @ [digit_char (n mod 10)]"
  by (subst digits10.simps) simp
lemma digits10_nonempty: "digits10 m \<noteq> []"
  by (cases "m < 10") (simp_all add: digits10_small digits10_big)

lemma hd_digits10: "\<exists>d. d < 10 \<and> hd (digits10 m) = digit_char d \<and> (d = 0 \<longleftrightarrow> m = 0)"
proof (induction m rule: less_induct)
  case (less m)
  show ?case
  proof (cases "m < 10")
    case True
    then have "hd (digits10 m) = digit_char m" by (simp add: digits10_small)
    with True show ?thesis by (intro exI [of _ m]) simp
  next
    case False
    then have lt: "m div 10 < m" and nz: "m div 10 \<noteq> 0" and mz: "m \<noteq> 0" by simp_all
    from less.IH [OF lt] obtain d where
      d: "d < 10" "hd (digits10 (m div 10)) = digit_char d" "d = 0 \<longleftrightarrow> m div 10 = 0"
      by (elim exE conjE)
    have "hd (digits10 m) = digit_char d"
      using d(2) by (simp add: digits10_big [OF False] digits10_nonempty)
    moreover have "d \<noteq> 0" using d(3) nz by simp
    ultimately show ?thesis using d(1) mz by (intro exI [of _ d]) simp
  qed
qed

lemma parse_step:
  assumes "d < 10"
  shows "parse_loop b0 10 18446744073709551615 [digit_char d] q us =
     (if q * 10 + d < 18446744073709551616 then Done (q * 10 + d) us
      else Fail 18446744073709551615 ErrRange)"
proof (cases "q \<ge> 1844674407370955162")
  case True
  then have "\<not> q * 10 + d < 18446744073709551616" by linarith
  with True show ?thesis using assms
    by (simp add: digit_val_digit_char digit_char_not_sign)
next
  case q: False
  then have "q * 10 < 18446744073709551616" by linarith
  then have nb: "(q * 10) mod 18446744073709551616 = q * 10" by (rule mod_less)
  show ?thesis
  proof (cases "q * 10 + d < 18446744073709551616")
    case True
    then have n1: "(q * 10 + d) mod 18446744073709551616 = q * 10 + d" by (rule mod_less)
    have le: "q * 10 + d \<le> 18446744073709551615" using True by linarith
    show ?thesis using True q le assms
      by (simp add: digit_val_digit_char digit_char_not_sign Let_def nb n1)
  next
    case False
    have lt2: "q * 10 + d - 18446744073709551616 < 18446744073709551616" using q assms by linarith
    have "(q * 10 + d) mod 18446744073709551616 = (q * 10 + d - 18446744073709551616) mod 18446744073709551616"
      using False by (simp add: le_mod_geq)
    also have "\<dots> = q * 10 + d - 18446744073709551616" using lt2 by (rule mod_less)
    finally have n1: "(q * 10 + d) mod 18446744073709551616 = q * 10 + d - 18446744073709551616" .
    have wrap: "q * 10 + d - 18446744073709551616 < q * 10" using q assms False by linarith
    show ?thesis using False q wrap assms
      by (simp add: digit_val_digit_char digit_char_not_sign Let_def nb n1)
  qed
qed

lemma parse_loop_digits10:
  "parse_loop b0 10 18446744073709551615 (digits10 m) 0 us =
     (if m < 18446744073709551616 then Done m us else Fail 18446744073709551615 ErrRange)"
proof (induction m rule: less_induct)
  case (less m)
  show ?case
  proof (cases "m < 10")
    case True
    then show ?thesis using parse_step [of m b0 0 us] by (simp add: digits10_small)
  next
    case False
    then have lt: "m div 10 < m" by simp
    have m: "m div 10 * 10 + m mod 10 = m" by simp
    have d: "m mod 10 < 10" by simp
    show ?thesis
    proof (cases "m div 10 < 18446744073709551616")
      case True
      then show ?thesis
        using less.IH [OF lt] parse_step [OF d, of b0 "m div 10" us]
        by (simp add: digits10_big [OF False] parse_loop_append m)
    next
      case big: False
      then have "\<not> m < 18446744073709551616" by linarith
      with big show ?thesis
        using less.IH [OF lt] by (simp add: digits10_big [OF False] parse_loop_append)
    qed
  qed
qed

lemma ParseUint_digits10:
  "ParseUint (digits10 m) 0 64 =
     (if m < 18446744073709551616 then (m, None) else (18446744073709551615, Some ErrRange))"
  "ParseUint (digits10 m) 10 0 =
     (if m < 18446744073709551616 then (m, None) else (18446744073709551615, Some ErrRange))"
proof -
  obtain d where d: "d < 10" "hd (digits10 m) = digit_char d" "d = 0 \<longleftrightarrow> m = 0"
    using hd_digits10 [of m] by (elim exE conjE)
  show "ParseUint (digits10 m) 10 0 =
     (if m < 18446744073709551616 then (m, None) else (18446744073709551615, Some ErrRange))"
    by (simp add: ParseUint_def digits10_nonempty parse_loop_digits10)
  show "ParseUint (digits10 m) 0 64 =
     (if m < 18446744073709551616 then (m, None) else (18446744073709551615, Some ErrRange))"
  proof (cases "m = 0")
    case True
    then have "digits10 m = ''0''" by (simp add: digits10_small digit_char_zero)
    then show ?thesis using True by (simp add: ParseUint_def base_prefix_def)
  next
    case False
    then have "hd (digits10 m) \<noteq> CHR ''0''" using d by (simp add: digit_char_zero)
    then have "base_prefix (digits10 m) = (10, digits10 m)"
      by (cases "digits10 m") (simp_all add: base_prefix_def)
    then show ?thesis
      by (simp add: ParseUint_def digits10_nonempty parse_loop_digits10)
  qed
qed

lemma ParseInt_sprintf_d:
  "ParseInt (sprintf_d (int m)) 0 64 =
     (if m < 9223372036854775808 then (int m, None) else (9223372036854775807, Some ErrRange))"
  "Atoi (sprintf_d (int m)) =
     (if m < 9223372036854775808 then (int m, None) else (9223372036854775807, Some ErrRange))"
proof -
  obtain d where d: "d < 10" "hd (digits10 m) = digit_char d"
    using hd_digits10 [of m] by (elim exE conjE)
  have s: "sprintf_d (int m) = digits10 m" by (simp add: sprintf_d_def)
  have h: "hd (digits10 m) \<noteq> CHR ''-''" "hd (digits10 m) \<noteq> CHR ''+''"
    using d digit_char_not_sign [of d] by simp_all
  show "ParseInt (sprintf_d (int m)) 0 64 =
     (if m < 9223372036854775808 then (int m, None) else (9223372036854775807, Some ErrRange))"
    using h by (simp add: s ParseInt_def ParseUint_digits10 digits10_nonempty)
  show "Atoi (sprintf_d (int m)) =
     (if m < 9223372036854775808 then (int m, None) else (9223372036854775807, Some ErrRange))"
    using h by (simp add: s Atoi_def ParseInt_def ParseUint_digits10 digits10_nonempty)
qed

section \<open>The encoder tables\<close>

lemma idx_simps [simp]:
  "idx [] k = None" "idx (x # xs) 0 = Some x" "idx (x # xs) (Suc k) = idx xs k"
  by (simp_all add: idx_def)

lemma add_codes_distinct: "distinct (map snd add_codes)"
  by (simp add: add_codes_def)

lemma sub_codes_distinct: "distinct (map snd sub_codes)"
  by (simp add: sub_codes_def)

lemma add_codes_keys: "map fst add_codes = List.product registers registers"
  by (simp add: add_codes_def registers_def)

lemma sub_codes_keys: "map fst sub_codes = List.product registers registers"
  by (simp add: sub_codes_def registers_def)

lemma add_codes_lookup:
  assumes "r \<in> set registers" "s \<in> set registers"
  shows "\<exists>x. map_of add_codes (r, s) = Some [0x48, 0x01, x]"
  using assms by (auto simp: registers_def add_codes_def)

lemma sub_codes_lookup:
  assumes "r \<in> set registers" "s \<in> set registers"
  shows "\<exists>x. map_of sub_codes (r, s) = Some [0x48, 0x29, x]"
  using assms by (auto simp: registers_def sub_codes_def)

text \<open>
  Claim C3. For every ordered pair of the four registers, \<^verbatim>\<open>add r, s\<close> appends the
  three bytes the add table holds for the pair and \<^verbatim>\<open>sub r, s\<close> the three bytes of
  the sub table, with no error; each table has exactly the sixteen pairs as keys and its
  sixteen byte sequences are pairwise different.
\<close>

theorem add_sub_register_pairs:
  assumes "r \<in> set registers" and "s \<in> set registers"
    and "idx (Operands i) 0 = Some a" and "Literal a = r"
    and "idx (Operands i) 1 = Some b" and "Literal b = s"
  shows "(\<exists>x. map_of add_codes (r, s) = Some [0x48, 0x01, x] \<and>
              assembleADD i c = (None, c\<lparr>code := code c @ [0x48, 0x01, x]\<rparr>)) \<and>
         (\<exists>y. map_of sub_codes (r, s) = Some [0x48, 0x29, y] \<and>
              assembleSUB i c = (None, c\<lparr>code := code c @ [0x48, 0x29, y]\<rparr>)) \<and>
         map fst add_codes = List.product registers registers \<and> distinct (map snd add_codes) \<and>
         map fst sub_codes = List.product registers registers \<and> distinct (map snd sub_codes)"
proof -
  obtain x where x: "map_of add_codes (r, s) = Some [0x48, 0x01, x]"
    using add_codes_lookup [OF assms(1,2)] by blast
  obtain y where y: "map_of sub_codes (r, s) = Some [0x48, 0x29, y]"
    using sub_codes_lookup [OF assms(1,2)] by blast
  have "assembleADD i c = (None, c\<lparr>code := code c @ [0x48, 0x01, x]\<rparr>)"
    using assms(3-6) x by (simp add: assembleADD_def emit_def)
  moreover have "assembleSUB i c = (None, c\<lparr>code := code c @ [0x48, 0x29, y]\<rparr>)"
    using assms(3-6) y by (simp add: assembleSUB_def emit_def)
  ultimately show ?thesis
    using x y add_codes_keys sub_codes_keys add_codes_distinct sub_codes_distinct by blast
qed

text \<open>
  Claim C4. A \<^verbatim>\<open>push\<close> whose single operand is a number should append \<open>0x68\<close> and
  the four little-endian bytes of the number. The number arm of \<^verbatim>\<open>assemblePush\<close>
  converts \<^verbatim>\<open>i.Operands[1]\<close>, which a push with one operand does not have: the
  encoder panics with an index out of range and appends nothing.
\<close>

theorem push_number_panics:
  "assemblePush \<lparr>Instruction = ''push'', Operands = [\<lparr>Type = NUMBER, Literal = n\<rparr>]\<rparr> c
     = (Some PanicIndex, c)"
  by (simp add: assemblePush_def)

lemma add_codes_none: "r \<notin> set registers \<Longrightarrow> map_of add_codes (r, s) = None"
  by (simp add: add_codes_def registers_def)

text \<open>
  Claim C7. An \<^verbatim>\<open>add\<close> with two operands whose first literal is not one of the four
  registers, or whose pair of literals is not in the table and which is not a register
  among the four with a number, returns an error (not a panic) and leaves the whole
  state, the code buffer included, as it was.
\<close>

theorem add_unsupported_operands:
  assumes "idx (Operands i) 0 = Some a" and "idx (Operands i) 1 = Some b"
    and "Literal a \<notin> set registers \<or>
         (map_of add_codes (Literal a, Literal b) = None \<and>
          \<not> (Type a = REGISTER \<and> Type b = NUMBER \<and> Literal a \<in> set registers))"
  shows "\<exists>e. assembleADD i c = (Some e, c) \<and> e \<noteq> PanicIndex \<and>
             compileInstruction (i\<lparr>Instruction := ''add''\<rparr>) c = (Some e, c)"
proof -
  have none: "map_of add_codes (Literal a, Literal b) = None"
    using assms(3) add_codes_none by blast
  have reg: "Type a = REGISTER \<and> Type b = NUMBER \<Longrightarrow> Literal a \<notin> set registers"
    using assms(3) by blast
  have "\<exists>e. assembleADD i c = (Some e, c) \<and> e \<noteq> PanicIndex"
  proof (cases "Type a = REGISTER \<and> Type b = NUMBER")
    case True
    then have "Literal a \<notin> set registers" by (rule reg)
    then show ?thesis using assms(1,2) none True
      by (cases "argToByteArray b") (auto simp: assembleADD_def registers_def argToByteArray_def split: prod.splits option.splits)
  next
    case False
    then show ?thesis using assms(1,2) none by (auto simp: assembleADD_def)
  qed
  then show ?thesis by (auto simp: compileInstruction_def assembleADD_def)
qed


theorem add_sub_register_pairs_witness:
  "''rax'' \<in> set registers \<and> ''rbx'' \<in> set registers \<and>
   assembleADD \<lparr>Instruction = ''add'', Operands =
       [\<lparr>Type = REGISTER, Literal = ''rax''\<rparr>, \<lparr>Type = REGISTER, Literal = ''rbx''\<rparr>]\<rparr> New
     = (None, New\<lparr>code := [0x48, 0x01, 0xd8]\<rparr>) \<and>
   assembleSUB \<lparr>Instruction = ''add'', Operands =
       [\<lparr>Type = REGISTER, Literal = ''rax''\<rparr>, \<lparr>Type = REGISTER, Literal = ''rbx''\<rparr>]\<rparr> New
     = (None, New\<lparr>code := [0x48, 0x29, 0xd8]\<rparr>)"
proof -
  let ?a = "\<lparr>Type = REGISTER, Literal = ''rax''\<rparr>" and ?b = "\<lparr>Type = REGISTER, Literal = ''rbx''\<rparr>"
  let ?i = "\<lparr>Instruction = ''add'', Operands = [?a, ?b]\<rparr>"
  have r: "''rax'' \<in> set registers" and s: "''rbx'' \<in> set registers"
    by (simp_all add: registers_def)
  have a: "idx (Operands ?i) 0 = Some ?a" and b: "idx (Operands ?i) 1 = Some ?b"
    by simp_all
  have la: "Literal ?a = ''rax''" and lb: "Literal ?b = ''rbx''" by simp_all
  have add: "map_of add_codes (''rax'', ''rbx'') = Some [0x48, 0x01, 0xd8]"
    by (simp add: add_codes_def)
  have sub: "map_of sub_codes (''rax'', ''rbx'') = Some [0x48, 0x29, 0xd8]"
    by (simp add: sub_codes_def)
  show ?thesis
    using add_sub_register_pairs [OF r s a la b lb, of New] r s add sub
    by (simp add: New_def)
qed

theorem add_unsupported_operands_witness:
  "Literal \<lparr>Type = REGISTER, Literal = ''rsi''\<rparr> \<notin> set registers \<and>
   assembleADD \<lparr>Instruction = ''add'', Operands =
       [\<lparr>Type = REGISTER, Literal = ''rsi''\<rparr>, \<lparr>Type = NUMBER, Literal = ''1''\<rparr>]\<rparr> New
     = (Some AddNotImplemented, New)"
proof -
  let ?a = "\<lparr>Type = REGISTER, Literal = ''rsi''\<rparr>" and ?b = "\<lparr>Type = NUMBER, Literal = ''1''\<rparr>"
  let ?i = "\<lparr>Instruction = ''add'', Operands = [?a, ?b]\<rparr>"
  have a: "idx (Operands ?i) 0 = Some ?a" and b: "idx (Operands ?i) 1 = Some ?b"
    by simp_all
  have r: "Literal ?a \<notin> set registers" by (simp add: registers_def)
  then have h: "Literal ?a \<notin> set registers \<or>
         (map_of add_codes (Literal ?a, Literal ?b) = None \<and>
          \<not> (Type ?a = REGISTER \<and> Type ?b = NUMBER \<and> Literal ?a \<in> set registers))" ..
  have p: "ParseInt ''1'' 0 64 = (1, None)"
    by (simp add: ParseInt_def ParseUint_def base_prefix_def digit_val_def Let_def)
  have "assembleADD ?i New = (Some AddNotImplemented, New)"
    by (simp add: assembleADD_def add_codes_def argToByteArray_def p)
  then show ?thesis using add_unsupported_operands [OF a b h, of New] r by simp
qed

section \<open>Moving the address of a data block\<close>

lemma argToByteArray_sprintf_d:
  assumes "Literal t = sprintf_d (int D)"
  shows "argToByteArray t =
     (if D < 9223372036854775808 then Inr (PutUint32 (uint32 (int D))) else Inl ConvertError)"
  using assms by (simp add: argToByteArray_def ParseInt_sprintf_d)

lemma mov_number_plain:
  assumes "Literal t = sprintf_d (int D)"
  shows "mov_number op t False c =
     (if D < 9223372036854775808
      then (None, c\<lparr>code := code c @ op @ PutUint32 (uint32 (int D))\<rparr>)
      else (Some ConvertError, c\<lparr>code := code c @ op\<rparr>))"
  by (simp add: mov_number_def argToByteArray_sprintf_d [OF assms] emit_def)

lemma mov_number_patch:
  assumes "Literal t = sprintf_d (int D)"
  shows "mov_number op t True c =
     (if D < 9223372036854775808
      then (None, c\<lparr>patches := AList.update (length (code c) + length op) (int D) (patches c),
                     code := code c @ op @ PutUint32 (uint32 (int D))\<rparr>)
      else (Some ConvertError, c\<lparr>code := code c @ op\<rparr>))"
  by (simp add: mov_number_def argToByteArray_sprintf_d [OF assms] emit_def
        ParseInt_sprintf_d assms)

lemma assembleMov_number:
  assumes "idx (Operands i) 0 = Some a" and "Type a = REGISTER"
    and "idx (Operands i) 1 = Some b" and "Type b = NUMBER"
  shows "assembleMov i l c =
     (if Literal a = ''rax'' then mov_number [0x48, 0xc7, 0xc0] b l c
      else if Literal a = ''rbx'' then mov_number [0x48, 0xc7, 0xc3] b l c
      else if Literal a = ''rcx'' then mov_number [0x48, 0xc7, 0xc1] b l c
      else if Literal a = ''rdx'' then mov_number [0x48, 0xc7, 0xc2] b l c
      else (Some MovUnknownRegister, c))"
  using assms by (subst assembleMov.simps) simp

lemma assembleMov_identifier:
  assumes "idx (Operands i) 0 = Some a" and "Type a = REGISTER"
    and "idx (Operands i) 1 = Some b" and "Type b = IDENTIFIER"
    and "dataOffsets c (Literal b) = Some D"
  shows "assembleMov i l c =
     assembleMov (i\<lparr>Operands := (Operands i)[1 := b\<lparr>Type := NUMBER, Literal := sprintf_d (int D)\<rparr>]\<rparr>)
       True c"
  using assms by (subst assembleMov.simps) simp

lemma idx_update:
  assumes "idx xs 0 = Some a" and "idx xs 1 = Some b"
  shows "idx (xs[1 := n]) 0 = Some a" and "idx (xs[1 := n]) 1 = Some n"
  using assms by (auto simp: idx_def split: if_splits)

lemma mov_opcode_cases:
  assumes "r \<in> set registers"
  obtains "r = ''rax''" | "r = ''rbx''" | "r = ''rcx''" | "r = ''rdx''"
  using assms by (auto simp: registers_def)

text \<open>
  Claim C10. For \<^verbatim>\<open>mov r, id\<close> with \<open>id\<close> in the data-offset table at offset \<open>D\<close>,
  the encoder returns the same error value and leaves the same code bytes as for
  \<^verbatim>\<open>mov r, D\<close>, the instruction whose second operand is the number with the decimal
  text of \<open>D\<close>. When \<open>r\<close> is one of the four registers and \<open>D\<close> fits a Go \<^verbatim>\<open>int\<close>,
  both succeed, the decimal text parses back to \<open>D\<close>, and the data patch recorded at
  the offset of the immediate (three opcode bytes into the instruction) holds \<open>D\<close>.
\<close>

theorem mov_identifier_as_number:
  assumes "idx (Operands i) 0 = Some a" and "Type a = REGISTER"
    and "idx (Operands i) 1 = Some b" and "Type b = IDENTIFIER"
    and "dataOffsets c (Literal b) = Some D"
    and "n = b\<lparr>Type := NUMBER, Literal := sprintf_d (int D)\<rparr>"
    and "i' = i\<lparr>Operands := (Operands i)[1 := n]\<rparr>"
  shows "fst (assembleMov i False c) = fst (assembleMov i' False c) \<and>
         code (snd (assembleMov i False c)) = code (snd (assembleMov i' False c)) \<and>
         (Literal a \<in> set registers \<and> D < 2 ^ 63 \<longrightarrow>
            Atoi (Literal n) = (int D, None) \<and>
            (\<exists>x. assembleMov i' False c =
                    (None, c\<lparr>code := code c @ [0x48, 0xc7, x] @ PutUint32 (uint32 (int D))\<rparr>) \<and>
                  assembleMov i False c =
                    (None, c\<lparr>patches := AList.update (length (code c) + 3) (int D) (patches c),
                              code := code c @ [0x48, 0xc7, x] @ PutUint32 (uint32 (int D))\<rparr>)))"
proof -
  have lit: "Literal n = sprintf_d (int D)" and ty: "Type n = NUMBER"
    by (simp_all add: assms(6))
  have a': "idx (Operands i') 0 = Some a" and n': "idx (Operands i') 1 = Some n"
    using idx_update [OF assms(1,3)] by (simp_all add: assms(7))
  have rec: "assembleMov i False c = assembleMov i' True c"
    using assembleMov_identifier [OF assms(1-5)] by (simp add: assms(6,7))
  note num = assembleMov_number [OF a' assms(2) n' ty]
  have same: "fst (assembleMov i' True c) = fst (assembleMov i' False c) \<and>
              code (snd (assembleMov i' True c)) = code (snd (assembleMov i' False c))"
    by (simp add: num mov_number_plain [OF lit] mov_number_patch [OF lit])
  have big: "D < 2 ^ 63 \<longleftrightarrow> D < 9223372036854775808" by simp
  have three: "Suc (Suc (Suc (length (code c)))) = length (code c) + 3" by simp
  have patch: "\<exists>x. assembleMov i' False c =
                    (None, c\<lparr>code := code c @ [0x48, 0xc7, x] @ PutUint32 (uint32 (int D))\<rparr>) \<and>
                  assembleMov i' True c =
                    (None, c\<lparr>patches := AList.update (length (code c) + 3) (int D) (patches c),
                              code := code c @ [0x48, 0xc7, x] @ PutUint32 (uint32 (int D))\<rparr>)"
    if r: "Literal a \<in> set registers" and d: "D < 9223372036854775808"
    using r
  proof (cases rule: mov_opcode_cases)
    case 1
    then show ?thesis using d
      by (intro exI [of _ "0xc0"]) (simp add: num mov_number_plain [OF lit] mov_number_patch [OF lit] three)
  next
    case 2
    then show ?thesis using d
      by (intro exI [of _ "0xc3"]) (simp add: num mov_number_plain [OF lit] mov_number_patch [OF lit] three)
  next
    case 3
    then show ?thesis using d
      by (intro exI [of _ "0xc1"]) (simp add: num mov_number_plain [OF lit] mov_number_patch [OF lit] three)
  next
    case 4
    then show ?thesis using d
      by (intro exI [of _ "0xc2"]) (simp add: num mov_number_plain [OF lit] mov_number_patch [OF lit] three)
  qed
  have atoi: "Atoi (Literal n) = (int D, None)" if "D < 9223372036854775808"
    using that by (simp add: lit ParseInt_sprintf_d)
  show ?thesis using same patch atoi by (simp only: rec big) blast
qed


lemma sprintf_d_1: "sprintf_d 1 = ''1''"
proof -
  have "(of_char (digit_char 1) :: nat) = of_char (CHR ''1'')"
    by (simp add: of_char_digit_char)
  then have "digit_char 1 = CHR ''1''" by (rule of_char_eqI)
  then show ?thesis using digits10_small [of 1] by (simp add: sprintf_d_def)
qed

lemma PutUint32_1: "PutUint32 (uint32 1) = [1, 0, 0, 0]"
  by (simp add: PutUint32_def uint32_def)

theorem mov_identifier_as_number_witness:
  "dataOffsets (New\<lparr>dataOffsets := [''b'' \<mapsto> 1]\<rparr>) ''b'' = Some 1 \<and>
   assembleMov \<lparr>Instruction = ''mov'', Operands =
       [\<lparr>Type = REGISTER, Literal = ''rax''\<rparr>, \<lparr>Type = IDENTIFIER, Literal = ''b''\<rparr>]\<rparr> False
       (New\<lparr>dataOffsets := [''b'' \<mapsto> 1]\<rparr>)
     = (None, New\<lparr>dataOffsets := [''b'' \<mapsto> 1], patches := [(3, 1)],
                    code := [0x48, 0xc7, 0xc0, 1, 0, 0, 0]\<rparr>) \<and>
   assembleMov \<lparr>Instruction = ''mov'', Operands =
       [\<lparr>Type = REGISTER, Literal = ''rax''\<rparr>, \<lparr>Type = NUMBER, Literal = ''1''\<rparr>]\<rparr> False
       (New\<lparr>dataOffsets := [''b'' \<mapsto> 1]\<rparr>)
     = (None, New\<lparr>dataOffsets := [''b'' \<mapsto> 1], code := [0x48, 0xc7, 0xc0, 1, 0, 0, 0]\<rparr>)"
proof -
  let ?a = "\<lparr>Type = REGISTER, Literal = ''rax''\<rparr>" and ?b = "\<lparr>Type = IDENTIFIER, Literal = ''b''\<rparr>"
  let ?n = "\<lparr>Type = NUMBER, Literal = ''1''\<rparr>"
  let ?i = "\<lparr>Instruction = ''mov'', Operands = [?a, ?b]\<rparr>"
  let ?i' = "\<lparr>Instruction = ''mov'', Operands = [?a, ?n]\<rparr>"
  let ?c = "New\<lparr>dataOffsets := [''b'' \<mapsto> 1]\<rparr>"
  have a: "idx (Operands ?i) 0 = Some ?a" and b: "idx (Operands ?i) 1 = Some ?b" by simp_all
  have ta: "Type ?a = REGISTER" and tb: "Type ?b = IDENTIFIER" by simp_all
  have d: "dataOffsets ?c (Literal ?b) = Some 1" by simp
  have n: "?n = ?b\<lparr>Type := NUMBER, Literal := sprintf_d (int 1)\<rparr>" by (simp add: sprintf_d_1)
  have i': "?i' = ?i\<lparr>Operands := (Operands ?i)[1 := ?n]\<rparr>" by simp
  have r: "Literal ?a \<in> set registers" "(1::nat) < 2 ^ 63" by (simp_all add: registers_def)
  from mov_identifier_as_number [OF a ta b tb d n i'] r
  obtain x where
    1: "assembleMov ?i' False ?c =
          (None, ?c\<lparr>code := code ?c @ [0x48, 0xc7, x] @ PutUint32 (uint32 (int 1))\<rparr>)" and
    2: "assembleMov ?i False ?c =
          (None, ?c\<lparr>patches := AList.update (length (code ?c) + 3) (int 1) (patches ?c),
                      code := code ?c @ [0x48, 0xc7, x] @ PutUint32 (uint32 (int 1))\<rparr>)"
    by blast
  have "assembleMov ?i' False ?c = (None, ?c\<lparr>code := code ?c @ [0x48, 0xc7, 0xc0] @ PutUint32 (uint32 (int 1))\<rparr>)"
    using assembleMov_number [OF _ ta, of ?i' ?n False ?c]
      mov_number_plain [of ?n 1 "[0x48, 0xc7, 0xc0]" ?c]
    by (simp add: sprintf_d_1)
  with 1 have "code (?c\<lparr>code := code ?c @ [0x48, 0xc7, x] @ PutUint32 (uint32 (int 1))\<rparr>)
      = code (?c\<lparr>code := code ?c @ [0x48, 0xc7, 0xc0] @ PutUint32 (uint32 (int 1))\<rparr>)"
    by simp
  then have x: "x = 0xc0" by simp
  show ?thesis using 1 2 d by (simp add: x PutUint32_1 New_def)
qed


section \<open>Writing four-byte windows into a buffer\<close>

lemma length_overwrite:
  "off + length bs \<le> length cd \<Longrightarrow> length (overwrite cd off bs) = length cd"
  by (simp add: overwrite_def)

lemma nth_overwrite:
  assumes "off + length bs \<le> length cd" and "i < length cd"
  shows "overwrite cd off bs ! i =
           (if off \<le> i \<and> i < off + length bs then bs ! (i - off) else cd ! i)"
proof -
  consider "i < off" | "off \<le> i" "i < off + length bs" | "off + length bs \<le> i" by linarith
  then show ?thesis
  proof cases
    case 1
    then show ?thesis using assms by (simp add: overwrite_def nth_append)
  next
    case 2
    then have "i - off < length bs" by linarith
    with 2 show ?thesis using assms by (simp add: overwrite_def nth_append)
  next
    case 3
    then have "off + length bs + (i - off - length bs) = i"
      and "\<not> i - off < length bs" and "\<not> i < off" and "\<not> i < off + length bs"
      by linarith+
    with 3 show ?thesis using assms by (simp add: overwrite_def nth_append)
  qed
qed

lemma overwrite_Cons:
  assumes "off < length cd"
  shows "overwrite (cd[off := x]) (Suc off) xs = overwrite cd off (x # xs)"
proof -
  have "take (Suc off) (cd[off := x]) = take off cd @ [x]"
    using assms by (simp add: take_Suc_conv_app_nth)
  moreover have "drop (Suc off + length xs) (cd[off := x]) = drop (off + length (x # xs)) cd"
    by simp
  ultimately show ?thesis by (simp add: overwrite_def)
qed

lemma store_overwrite:
  "off + length bs \<le> length cd \<Longrightarrow> store cd off bs = Some (overwrite cd off bs)"
proof (induction bs arbitrary: cd off)
  case Nil
  then show ?case by (simp add: overwrite_def)
next
  case (Cons x xs)
  then have lt: "off < length cd" and "Suc off + length xs \<le> length (cd[off := x])" by simp_all
  then show ?case using Cons.IH [of "Suc off" "cd[off := x]"]
    by (simp add: overwrite_Cons)
qed

lemma window_append: "p + 4 \<le> length cd \<Longrightarrow> window (cd @ ext) p = window cd p"
  by (simp add: window_def)

lemma window_end: "length bs = 4 \<Longrightarrow> window (cd @ bs) (length cd) = bs"
  by (simp add: window_def)

lemma window_eqI:
  assumes "p + 4 \<le> length a" and "length bs = 4" and "\<And>j. j < 4 \<Longrightarrow> a ! (p + j) = bs ! j"
  shows "window a p = bs"
  using assms by (auto simp: window_def intro!: nth_equalityI)

lemma write_all_Cons: "write_all ((p, bs) # ws) cd = write_all ws (overwrite cd p bs)"
  by (simp add: write_all_def)

lemma length_write_all:
  "(\<And>p bs. (p, bs) \<in> set ws \<Longrightarrow> p + length bs \<le> length cd) \<Longrightarrow>
   length (write_all ws cd) = length cd"
proof (induction ws arbitrary: cd)
  case Nil
  show ?case by (simp add: write_all_def)
next
  case (Cons w ws)
  obtain p bs where w: "w = (p, bs)" by (cases w)
  have len: "length (overwrite cd p bs) = length cd"
    using Cons.prems [of p bs] by (simp add: w length_overwrite)
  have "length (write_all ws (overwrite cd p bs)) = length (overwrite cd p bs)"
    by (rule Cons.IH) (use Cons.prems len in auto)
  then show ?case by (simp add: w write_all_Cons len)
qed

lemma write_all_outside:
  "(\<And>p bs. (p, bs) \<in> set ws \<Longrightarrow> p + length bs \<le> length cd) \<Longrightarrow>
   (\<And>p bs. (p, bs) \<in> set ws \<Longrightarrow> i < p \<or> p + length bs \<le> i) \<Longrightarrow>
   i < length cd \<Longrightarrow> write_all ws cd ! i = cd ! i"
proof (induction ws arbitrary: cd)
  case Nil
  show ?case by (simp add: write_all_def)
next
  case (Cons w ws)
  obtain p bs where w: "w = (p, bs)" by (cases w)
  have fit: "p + length bs \<le> length cd" using Cons.prems(1) [of p bs] by (simp add: w)
  have out: "i < p \<or> p + length bs \<le> i" using Cons.prems(2) [of p bs] by (simp add: w)
  have len: "length (overwrite cd p bs) = length cd" using fit by (rule length_overwrite)
  have "write_all ws (overwrite cd p bs) ! i = overwrite cd p bs ! i"
    by (rule Cons.IH) (use Cons.prems len in auto)
  also have "\<dots> = cd ! i" using out fit Cons.prems(3) by (auto simp: nth_overwrite)
  finally show ?case by (simp add: w write_all_Cons)
qed

lemma apart_sym: "apart p q \<Longrightarrow> apart q p"
  by (auto simp: apart_def)

lemma write_all_inside:
  "separate (map fst ws) (length cd) \<Longrightarrow> (\<And>p bs. (p, bs) \<in> set ws \<Longrightarrow> length bs = 4) \<Longrightarrow>
   (p, bs) \<in> set ws \<Longrightarrow> j < 4 \<Longrightarrow> write_all ws cd ! (p + j) = bs ! j"
proof (induction ws arbitrary: cd)
  case Nil
  then show ?case by simp
next
  case (Cons w ws)
  obtain q b where w: "w = (q, b)" by (cases w)
  have b4: "length b = 4" using Cons.prems(2) [of q b] by (simp add: w)
  have q: "q + 4 \<le> length cd" and nq: "q \<notin> fst ` set ws"
    and rest: "separate (map fst ws) (length cd)"
    and ap: "\<And>r. r \<in> fst ` set ws \<Longrightarrow> apart q r"
    using Cons.prems(1) by (auto simp: separate_def w)
  have len: "length (overwrite cd q b) = length cd" using q b4 by (simp add: length_overwrite)
  have fits: "r + length c \<le> length (overwrite cd q b)" if "(r, c) \<in> set ws" for r c
  proof -
    have "r \<in> fst ` set ws" using that by force
    then have "r + 4 \<le> length cd" using rest by (auto simp: separate_def)
    moreover have "length c = 4" using Cons.prems(2) [of r c] that by simp
    ultimately show ?thesis by (simp add: len)
  qed
  show ?case
  proof (cases "(p, bs) \<in> set ws")
    case True
    have "write_all ws (overwrite cd q b) ! (p + j) = bs ! j"
      by (rule Cons.IH) (use rest len True Cons.prems in auto)
    then show ?thesis by (simp add: w write_all_Cons)
  next
    case False
    then have eq: "p = q" "bs = b" using Cons.prems(3) by (auto simp: w)
    have "write_all ws (overwrite cd q b) ! (q + j) = overwrite cd q b ! (q + j)"
    proof (rule write_all_outside)
      show "r + length c \<le> length (overwrite cd q b)" if "(r, c) \<in> set ws" for r c
        using that by (rule fits)
      show "q + j < r \<or> r + length c \<le> q + j" if "(r, c) \<in> set ws" for r c
      proof -
        have "apart q r" using that by (intro ap) force
        moreover have "length c = 4" using Cons.prems(2) [of r c] that by simp
        ultimately show ?thesis using \<open>j < 4\<close> by (auto simp: apart_def)
      qed
      show "q + j < length (overwrite cd q b)" using q \<open>j < 4\<close> by (simp add: len)
    qed
    also have "\<dots> = b ! j" using q b4 \<open>j < 4\<close> by (simp add: nth_overwrite)
    finally show ?thesis by (simp add: w write_all_Cons eq)
  qed
qed

lemma window_write_all_inside:
  assumes "separate (map fst ws) (length cd)"
    and "\<And>p bs. (p, bs) \<in> set ws \<Longrightarrow> length bs = 4"
    and "(p, bs) \<in> set ws"
  shows "window (write_all ws cd) p = bs"
proof (rule window_eqI)
  have fit: "r + length c \<le> length cd" if "(r, c) \<in> set ws" for r c
  proof -
    have "r \<in> fst ` set ws" using that by force
    then have "r + 4 \<le> length cd" using assms(1) by (auto simp: separate_def)
    then show ?thesis using assms(2) [OF that] by simp
  qed
  then have "length (write_all ws cd) = length cd" by (rule length_write_all)
  moreover have "p + 4 \<le> length cd" using fit [OF assms(3)] assms(2) [OF assms(3)] by simp
  ultimately show "p + 4 \<le> length (write_all ws cd)" by simp
  show "length bs = 4" using assms(3) by (rule assms(2))
  show "write_all ws cd ! (p + j) = bs ! j" if "j < 4" for j
    using assms that by (rule write_all_inside)
qed

lemma window_write_all_outside:
  assumes "\<And>q bs. (q, bs) \<in> set ws \<Longrightarrow> length bs = 4 \<and> q + 4 \<le> length cd \<and> apart p q"
    and "p + 4 \<le> length cd"
  shows "window (write_all ws cd) p = window cd p"
proof -
  have len: "length (write_all ws cd) = length cd"
    by (rule length_write_all) (use assms(1) in auto)
  have "write_all ws cd ! (p + j) = cd ! (p + j)" if "j < 4" for j
  proof (rule write_all_outside)
    show "q + length bs \<le> length cd" if "(q, bs) \<in> set ws" for q bs
      using assms(1) [OF that] by simp
    show "p + j < q \<or> q + length bs \<le> p + j" if "(q, bs) \<in> set ws" for q bs
      using assms(1) [OF that] \<open>j < 4\<close> by (auto simp: apart_def)
    show "p + j < length cd" using assms(2) that by simp
  qed
  then show ?thesis using assms(2) len
    by (auto simp: window_def intro!: nth_equalityI)
qed


section \<open>The invariant of the first loop\<close>

lemma length_PutUint32 [simp]: "length (PutUint32 w) = 4"
  by (simp add: PutUint32_def)

lemma update_fresh: "k \<notin> fst ` set al \<Longrightarrow> AList.update k v al = al @ [(k, v)]"
  by (induction al) auto

lemma separate_bound: "separate os n \<Longrightarrow> p \<in> set os \<Longrightarrow> p + 4 \<le> n"
  by (simp add: separate_def)

lemma separate_mono: "separate os n \<Longrightarrow> n \<le> m \<Longrightarrow> separate os m"
  by (fastforce simp: separate_def)

lemma separate_insert:
  assumes "separate (xs @ ys) n" and "n \<le> k" and "k + 4 \<le> m"
  shows "separate (xs @ k # ys) m"
proof -
  have old: "p + 4 \<le> n" if "p \<in> set xs \<union> set ys" for p
    using assms(1) that by (auto simp: separate_def)
  then have fresh: "k \<notin> set xs \<union> set ys" using assms(2) by fastforce
  have ap: "apart p k \<and> apart k p" if "p \<in> set xs \<union> set ys" for p
    using old [OF that] assms(2) by (simp add: apart_def)
  have "distinct (xs @ k # ys)" using assms(1) fresh by (auto simp: separate_def)
  moreover have "\<forall>p\<in>set (xs @ k # ys). p + 4 \<le> m"
    using old assms(2,3) by fastforce
  moreover have "\<forall>p\<in>set (xs @ k # ys). \<forall>q\<in>set (xs @ k # ys). p \<noteq> q \<longrightarrow> apart p q"
    using assms(1) ap by (auto simp: separate_def)
  ultimately show ?thesis by (simp add: separate_def)
qed

lemma wf_New: "wf New"
  by (simp add: wf_def New_def offsets_def separate_def)

lemma wf_bound_patch: "wf c \<Longrightarrow> (p, v) \<in> set (patches c) \<Longrightarrow> p + 4 \<le> length (code c)"
  by (force simp: wf_def offsets_def intro: separate_bound)

lemma wf_bound_label: "wf c \<Longrightarrow> (p, s) \<in> set (labelTargets c) \<Longrightarrow> p + 4 \<le> length (code c)"
  by (force simp: wf_def offsets_def intro: separate_bound)

lemma wf_fresh:
  assumes "wf c" and "length (code c) \<le> k"
  shows "k \<notin> fst ` set (patches c)" and "k \<notin> fst ` set (labelTargets c)"
  using wf_bound_patch [OF assms(1)] wf_bound_label [OF assms(1)] assms(2) by fastforce+

lemma wf_emit:
  assumes "wf c"
  shows "wf (emit bs c)"
proof -
  have "separate (offsets (emit bs c)) (length (code (emit bs c)))"
    using assms by (auto simp: wf_def emit_def offsets_def intro: separate_mono)
  moreover have "window (code (emit bs c)) p = PutUint32 (uint32 v)"
    if "(p, v) \<in> set (patches c)" for p v
    using assms that wf_bound_patch [OF assms that]
    by (auto simp: wf_def emit_def window_append)
  moreover have "window (code (emit bs c)) p = [0, 0, 0, 0]"
    if "(p, s) \<in> set (labelTargets c)" for p s
    using assms that wf_bound_label [OF assms that]
    by (auto simp: wf_def emit_def window_append)
  ultimately show ?thesis by (auto simp: wf_def emit_def)
qed

lemma wf_data_ref:
  assumes "wf c"
    and k_def: "k = length (code c) + length op"
  shows "wf (emit (PutUint32 (uint32 v)) ((emit op c)\<lparr>patches := AList.update k v (patches c)\<rparr>))"
    (is "wf ?c'")
proof -
  have le: "length (code c) \<le> k" by (simp add: k_def)
  have up: "AList.update k v (patches c) = patches c @ [(k, v)]"
    using wf_fresh(1) [OF assms(1) le] by (simp add: update_fresh)
  have code: "code ?c' = (code c @ op) @ PutUint32 (uint32 v)" by (simp add: emit_def)
  have len: "length (code ?c') = k + 4" by (simp add: emit_def k_def)
  have old: "separate (map fst (patches c) @ map fst (labelTargets c)) (length (code c))"
    using assms(1) by (simp add: wf_def offsets_def)
  have off: "offsets ?c' = map fst (patches c) @ k # map fst (labelTargets c)"
    by (simp add: offsets_def emit_def up)
  have sep: "separate (offsets ?c') (length (code ?c'))"
    unfolding off len using old le by (rule separate_insert) simp
  have new: "window (code ?c') k = PutUint32 (uint32 v)"
    unfolding code using window_end [of "PutUint32 (uint32 v)" "code c @ op"] by (simp add: k_def)
  have pw: "window (code ?c') p = PutUint32 (uint32 w)" if "(p, w) \<in> set (patches c)" for p w
    using assms(1) that wf_bound_patch [OF assms(1) that]
    by (auto simp: wf_def emit_def window_append)
  have lw: "window (code ?c') p = [0, 0, 0, 0]" if "(p, s) \<in> set (labelTargets c)" for p s
    using assms(1) that wf_bound_label [OF assms(1) that]
    by (auto simp: wf_def emit_def window_append)
  have p': "patches ?c' = patches c @ [(k, v)]" and l': "labelTargets ?c' = labelTargets c"
    by (simp_all add: emit_def up)
  show ?thesis unfolding wf_def p' l' using sep new pw lw by auto
qed

lemma wf_label_ref:
  assumes "wf c"
    and k_def: "k = length (code c) + length op"
  shows "wf (emit [0, 0, 0, 0] ((emit op c)\<lparr>labelTargets := AList.update k s (labelTargets c)\<rparr>))"
    (is "wf ?c'")
proof -
  have le: "length (code c) \<le> k" by (simp add: k_def)
  have up: "AList.update k s (labelTargets c) = labelTargets c @ [(k, s)]"
    using wf_fresh(2) [OF assms(1) le] by (simp add: update_fresh)
  have code: "code ?c' = (code c @ op) @ [0, 0, 0, 0]" by (simp add: emit_def)
  have len: "length (code ?c') = k + 4" by (simp add: emit_def k_def)
  have old: "separate ((map fst (patches c) @ map fst (labelTargets c)) @ []) (length (code c))"
    using assms(1) by (simp add: wf_def offsets_def)
  have off: "offsets ?c' = (map fst (patches c) @ map fst (labelTargets c)) @ k # []"
    by (simp add: offsets_def emit_def up)
  have sep: "separate (offsets ?c') (length (code ?c'))"
    unfolding off len using old le by (rule separate_insert) simp
  have new: "window (code ?c') k = [0, 0, 0, 0]"
    unfolding code using window_end [of "[0, 0, 0, 0]" "code c @ op"] by (simp add: k_def)
  have pw: "window (code ?c') p = PutUint32 (uint32 w)" if "(p, w) \<in> set (patches c)" for p w
    using assms(1) that wf_bound_patch [OF assms(1) that]
    by (auto simp: wf_def emit_def window_append)
  have lw: "window (code ?c') p = [0, 0, 0, 0]" if "(p, t) \<in> set (labelTargets c)" for p t
    using assms(1) that wf_bound_label [OF assms(1) that]
    by (auto simp: wf_def emit_def window_append)
  have p': "patches ?c' = patches c" and l': "labelTargets ?c' = labelTargets c @ [(k, s)]"
    by (simp_all add: emit_def up)
  show ?thesis unfolding wf_def p' l' using sep new pw lw by auto
qed

lemma grows_wf: "grows c c' \<Longrightarrow> wf c \<Longrightarrow> wf c'"
proof (induction rule: grows.induct)
  case (emitted c bs)
  then show ?case by (rule wf_emit)
next
  case (data_ref c v op)
  then show ?case by (intro wf_data_ref refl)
next
  case (label_ref c op s)
  then show ?case by (intro wf_label_ref refl)
next
  case (tables c d offs ls)
  then show ?case by (simp add: wf_def offsets_def)
qed

lemma grows_code: "grows c c' \<Longrightarrow> \<exists>ext. code c' = code c @ ext"
  by (induction rule: grows.induct) (auto simp: emit_def)

lemma grows_keeps:
  "grows c c' \<Longrightarrow> wf c \<Longrightarrow>
   set (patches c) \<subseteq> set (patches c') \<and> set (labelTargets c) \<subseteq> set (labelTargets c')"
proof (induction rule: grows.induct)
  case (data_ref c v op)
  then show ?case
    using wf_fresh(1) [of c "length (code c) + length op"]
    by (auto simp: emit_def update_fresh)
next
  case (label_ref c op s)
  then show ?case
    using wf_fresh(2) [of c "length (code c) + length op"]
    by (auto simp: emit_def update_fresh)
qed (auto simp: emit_def)

lemma grows_labels:
  "grows c c' \<Longrightarrow> labels c' = labels c \<or> (\<exists>d offs ls. c' = c\<lparr>data := d, dataOffsets := offs, labels := ls\<rparr>)"
  by (induction rule: grows.induct) (auto simp: emit_def)


section \<open>Every node of the stream keeps the invariant\<close>

lemma emit_Nil [simp]: "emit [] c = c"
  by (simp add: emit_def)

lemma grows_refl: "grows c c"
  using grows.emitted [of c "[]"] by simp

lemma grows_emit2: "grows c (emit b (emit a c))"
  using grows.emitted [of c "a @ b"] by (simp add: emit_def)

lemmas grows_simple = grows_refl grows.emitted grows_emit2

lemma assembleADD_grows: "grows c (snd (assembleADD i c))"
  by (auto simp: assembleADD_def grows_simple split: option.splits sum.splits)

lemma assembleSUB_grows: "grows c (snd (assembleSUB i c))"
  by (auto simp: assembleSUB_def grows_simple split: option.splits sum.splits)

lemma assembleDEC_grows: "grows c (snd (assembleDEC i c))"
  by (auto simp: assembleDEC_def grows_simple split: option.splits)

lemma assembleINC_grows: "grows c (snd (assembleINC i c))"
  by (auto simp: assembleINC_def grows_simple split: option.splits)

lemma assembleXOR_grows: "grows c (snd (assembleXOR i c))"
  by (auto simp: assembleXOR_def grows_simple split: option.splits)

lemma assemblePush_grows: "grows c (snd (assemblePush i c))"
proof -
  have "grows c (emit [0, 0, 0, 0]
      ((emit [0x68] c)\<lparr>labelTargets := AList.update (length (code c) + length [0x68 :: byte]) s (labelTargets c)\<rparr>))" for s
    by (rule grows.label_ref)
  then have "grows c (emit [0, 0, 0, 0]
      ((emit [0x68] c)\<lparr>labelTargets := AList.update (length (code (emit [0x68] c))) s
          (labelTargets (emit [0x68] c))\<rparr>))" for s
    by (simp add: emit_def)
  then show ?thesis
    by (auto simp: assemblePush_def Let_def grows_simple split: option.splits sum.splits)
qed

lemma mov_number_plain_grows: "grows c (snd (mov_number op t False c))"
  by (auto simp: mov_number_def Let_def grows_simple split: sum.splits)

lemma mov_number_patch_grows:
  assumes "Literal t = sprintf_d (int D)"
  shows "grows c (snd (mov_number op t True c))"
proof (cases "D < 9223372036854775808")
  case True
  have "grows c (emit (PutUint32 (uint32 (int D)))
      ((emit op c)\<lparr>patches := AList.update (length (code c) + length op) (int D) (patches c)\<rparr>))"
    by (rule grows.data_ref)
  then show ?thesis using True by (simp add: mov_number_patch [OF assms] emit_def)
next
  case False
  then show ?thesis using grows.emitted [of c op]
    by (simp add: mov_number_patch [OF assms] emit_def)
qed

lemma assembleMov_grows: "grows c (snd (assembleMov i False c))"
proof (cases "idx (Operands i) 0")
  case None
  then show ?thesis by (subst assembleMov.simps) (simp add: grows_refl)
next
  case a: (Some a)
  show ?thesis
  proof (cases "Type a = REGISTER")
    case False
    then show ?thesis using a by (subst assembleMov.simps) (simp add: grows_refl)
  next
    case reg: True
    show ?thesis
    proof (cases "idx (Operands i) 1")
      case None
      then show ?thesis using a reg by (subst assembleMov.simps) (simp add: grows_refl)
    next
      case b: (Some b)
      show ?thesis
      proof (cases "Type b")
        case REGISTER
        then show ?thesis using a reg b by (subst assembleMov.simps) (simp add: grows_refl)
      next
        case NUMBER
        show ?thesis
          by (simp add: assembleMov_number [OF a reg b NUMBER] mov_number_plain_grows grows_refl)
      next
        case IDENTIFIER
        show ?thesis
        proof (cases "dataOffsets c (Literal b)")
          case None
          then show ?thesis using a reg b IDENTIFIER
            by (subst assembleMov.simps) (simp add: grows_refl)
        next
          case (Some D)
          let ?n = "b\<lparr>Type := NUMBER, Literal := sprintf_d (int D)\<rparr>"
          let ?i = "i\<lparr>Operands := (Operands i)[1 := ?n]\<rparr>"
          have a': "idx (Operands ?i) 0 = Some a" and n': "idx (Operands ?i) 1 = Some ?n"
            using idx_update [OF a b] by simp_all
          have tn: "Type ?n = NUMBER" and ln: "Literal ?n = sprintf_d (int D)" by simp_all
          have "grows c (snd (assembleMov ?i True c))"
            unfolding assembleMov_number [OF a' reg n' tn]
            by (simp add: mov_number_patch_grows [OF ln] grows_refl)
          then show ?thesis by (simp add: assembleMov_identifier [OF a reg b IDENTIFIER Some])
        qed
      next
        case OTHER
        then show ?thesis using a reg b by (subst assembleMov.simps) (simp add: grows_refl)
      qed
    qed
  qed
qed

lemma compileInstruction_grows: "grows c (snd (compileInstruction i c))"
  by (auto simp: compileInstruction_def grows_simple assembleADD_grows assembleSUB_grows
        assembleDEC_grows assembleINC_grows assembleXOR_grows assemblePush_grows
        assembleMov_grows split: option.splits sum.splits)

lemma walk_append:
  "walk (xs @ ys) c = (case walk xs c of (None, c') \<Rightarrow> walk ys c' | (Some e, c') \<Rightarrow> (Some e, c'))"
  by (induction xs arbitrary: c) (auto split: Node.splits prod.splits option.splits)

lemma walk_reaches: "grows\<^sup>*\<^sup>* c (snd (walk stmts c))"
proof (induction stmts arbitrary: c)
  case Nil
  show ?case by simp
next
  case (Cons stmt rest)
  show ?case
  proof (cases stmt)
    case (Data name contents)
    have "grows c (handleData name contents c)"
      using grows.tables [where c = c and d = "data c @ contents"
          and offs = "(dataOffsets c)(name \<mapsto> length (data c))" and ls = "labels c"]
      by (simp add: handleData_def)
    then show ?thesis using Cons.IH [of "handleData name contents c"]
      by (simp add: Data converse_rtranclp_into_rtranclp)
  next
    case (Label name)
    have "grows c (c\<lparr>labels := (labels c)(name \<mapsto> length (code c))\<rparr>)"
      using grows.tables [where c = c and d = "data c" and offs = "dataOffsets c"
          and ls = "(labels c)(name \<mapsto> length (code c))"]
      by simp
    then show ?thesis using Cons.IH [of "c\<lparr>labels := (labels c)(name \<mapsto> length (code c))\<rparr>"]
      by (simp add: Label converse_rtranclp_into_rtranclp)
  next
    case (Instr i)
    obtain r c' where step: "compileInstruction i c = (r, c')" by (cases "compileInstruction i c")
    have g: "grows c c'" using compileInstruction_grows [of c i] by (simp add: step)
    show ?thesis
    proof (cases r)
      case None
      then show ?thesis using g Cons.IH [of c']
        by (simp add: Instr step converse_rtranclp_into_rtranclp)
    next
      case (Some e)
      then show ?thesis using g by (simp add: Instr step)
    qed
  qed simp_all
qed

lemma reaches_wf:
  "grows\<^sup>*\<^sup>* c c' \<Longrightarrow> wf c \<Longrightarrow>
   wf c' \<and> (\<exists>ext. code c' = code c @ ext) \<and>
   set (patches c) \<subseteq> set (patches c') \<and> set (labelTargets c) \<subseteq> set (labelTargets c')"
proof (induction rule: rtranclp_induct)
  case base
  then show ?case by simp
next
  case (step y z)
  then have y: "wf y" by simp
  from step obtain ext where e: "code y = code c @ ext" by auto
  from grows_code [OF step.hyps(2)] obtain ext' where e': "code z = code y @ ext'" by auto
  have "code z = code c @ (ext @ ext')" by (simp add: e e')
  then show ?case using step grows_wf [OF step.hyps(2) y] grows_keeps [OF step.hyps(2) y]
    by blast
qed

lemma walk_wf:
  assumes "wf c" and "walk stmts c = (r, c')"
  shows "wf c'" and "\<exists>ext. code c' = code c @ ext"
    and "set (patches c) \<subseteq> set (patches c')" and "set (labelTargets c) \<subseteq> set (labelTargets c')"
  using reaches_wf [OF walk_reaches [of c stmts] assms(1)] by (simp_all add: assms(2))


section \<open>The two patch loops\<close>

lemma separate_perm:
  assumes "mset os = mset os'" and "separate os n"
  shows "separate os' n"
proof -
  have "set os' = set os" using assms(1) by (metis mset_eq_setD)
  moreover have "distinct os'" using assms by (metis mset_eq_imp_distinct_iff separate_def)
  ultimately show ?thesis using assms(2) by (simp add: separate_def)
qed

lemma separate_appendD:
  assumes "separate (xs @ ys) n"
  shows "separate xs n" and "separate ys n"
    and "\<And>p q. p \<in> set xs \<Longrightarrow> q \<in> set ys \<Longrightarrow> apart p q"
proof -
  show "separate xs n" and "separate ys n" using assms by (auto simp: separate_def)
  show "apart p q" if "p \<in> set xs" "q \<in> set ys" for p q
  proof -
    have "p \<noteq> q" using assms that by (auto simp: separate_def)
    then show ?thesis using assms that by (auto simp: separate_def)
  qed
qed

lemma write_all_perm:
  assumes "mset ws = mset ws'" and "separate (map fst ws) (length cd)"
    and four: "\<And>p bs. (p, bs) \<in> set ws \<Longrightarrow> length bs = 4"
  shows "write_all ws cd = write_all ws' cd"
proof (rule nth_equalityI)
  have sets: "set ws' = set ws" using assms(1) by (metis mset_eq_setD)
  have "mset (map fst ws) = mset (map fst ws')" using assms(1) by simp
  then have sep': "separate (map fst ws') (length cd)" using assms(2) by (rule separate_perm)
  have four': "length bs = 4" if "(p, bs) \<in> set ws'" for p bs
    using that four by (simp add: sets)
  have fit: "p + length bs \<le> length cd" if "(p, bs) \<in> set ws" for p bs
  proof -
    have "p \<in> set (map fst ws)" using that by force
    then have "p + 4 \<le> length cd" using assms(2) by (rule separate_bound [rotated])
    then show ?thesis using four [OF that] by simp
  qed
  have fit': "p + length bs \<le> length cd" if "(p, bs) \<in> set ws'" for p bs
    using that fit by (simp add: sets)
  have len: "length (write_all ws cd) = length cd" using fit by (rule length_write_all)
  have len': "length (write_all ws' cd) = length cd" using fit' by (rule length_write_all)
  show "length (write_all ws cd) = length (write_all ws' cd)" by (simp add: len len')
  show "write_all ws cd ! i = write_all ws' cd ! i" if "i < length (write_all ws cd)" for i
  proof (cases "\<exists>p bs. (p, bs) \<in> set ws \<and> p \<le> i \<and> i < p + 4")
    case True
    then obtain p bs where w: "(p, bs) \<in> set ws" and i: "p \<le> i" "i < p + 4" by blast
    have w': "(p, bs) \<in> set ws'" using w by (simp add: sets)
    have j: "i - p < 4" using i by simp
    have "write_all ws cd ! (p + (i - p)) = bs ! (i - p)"
      using assms(2) four w j by (rule write_all_inside)
    moreover have "write_all ws' cd ! (p + (i - p)) = bs ! (i - p)"
      using sep' four' w' j by (rule write_all_inside)
    ultimately show ?thesis using i by simp
  next
    case False
    have out: "i < p \<or> p + length bs \<le> i" if "(p, bs) \<in> set ws" for p bs
    proof -
      have "\<not> (p \<le> i \<and> i < p + 4)" using False that by blast
      then show ?thesis using four [OF that] by linarith
    qed
    have out': "i < p \<or> p + length bs \<le> i" if "(p, bs) \<in> set ws'" for p bs
      using that out by (simp add: sets)
    have il: "i < length cd" using that by (simp add: len)
    have "write_all ws cd ! i = cd ! i" using fit out il by (rule write_all_outside)
    moreover have "write_all ws' cd ! i = cd ! i" using fit' out' il by (rule write_all_outside)
    ultimately show ?thesis by simp
  qed
qed

lemma applyPatches_write_all:
  "(\<And>p v. (p, v) \<in> set ps \<Longrightarrow> p + 4 \<le> length (code c)) \<Longrightarrow>
   applyPatches ps c =
     (None, c\<lparr>code := write_all
        (map (\<lambda>(off, v). (off, PutUint32 (uint32
                (0x400000 + v + int (length (code c)) + 0x40 + (2 * 0x38))))) ps) (code c)\<rparr>)"
proof (induction ps arbitrary: c)
  case Nil
  show ?case by (simp add: write_all_def)
next
  case (Cons a ps)
  obtain p v where a: "a = (p, v)" by (cases a)
  let ?bs = "PutUint32 (uint32 (0x400000 + v + int (length (code c)) + 0x40 + (2 * 0x38)))"
  let ?c = "c\<lparr>code := overwrite (code c) p ?bs\<rparr>"
  have fit: "p + length ?bs \<le> length (code c)" using Cons.prems [of p v] by (simp add: a)
  have st: "store (code c) p ?bs = Some (overwrite (code c) p ?bs)"
    using fit by (rule store_overwrite)
  have len: "length (code ?c) = length (code c)" using fit by (simp add: length_overwrite)
  have "applyPatches ps ?c =
     (None, ?c\<lparr>code := write_all
        (map (\<lambda>(off, v). (off, PutUint32 (uint32
                (0x400000 + v + int (length (code ?c)) + 0x40 + (2 * 0x38))))) ps) (code ?c)\<rparr>)"
    by (rule Cons.IH) (use Cons.prems len in auto)
  moreover have "length (overwrite (code c) p ?bs) = length (code c)"
    using fit by (rule length_overwrite)
  ultimately show ?case using st by (simp add: a write_all_Cons)
qed

lemma applyLabels_write_all:
  "(\<And>p s. (p, s) \<in> set ls \<Longrightarrow> p + 4 \<le> length (code c)) \<Longrightarrow>
   applyLabels ls c =
     (None, c\<lparr>code := write_all
        (map (\<lambda>(off, s). (off, PutUint32 (uint32
                (0x400000 + (case labels c s of Some k \<Rightarrow> int k | None \<Rightarrow> 0) + 0x40 + (2 * 0x38)))))
           ls) (code c)\<rparr>)"
proof (induction ls arbitrary: c)
  case Nil
  show ?case by (simp add: write_all_def)
next
  case (Cons a ls)
  obtain p s where a: "a = (p, s)" by (cases a)
  let ?bs = "PutUint32 (uint32
     (0x400000 + (case labels c s of Some k \<Rightarrow> int k | None \<Rightarrow> 0) + 0x40 + (2 * 0x38)))"
  let ?c = "c\<lparr>code := overwrite (code c) p ?bs\<rparr>"
  have fit: "p + length ?bs \<le> length (code c)" using Cons.prems [of p s] by (simp add: a)
  have st: "store (code c) p ?bs = Some (overwrite (code c) p ?bs)"
    using fit by (rule store_overwrite)
  have len: "length (code ?c) = length (code c)" using fit by (simp add: length_overwrite)
  have "applyLabels ls ?c =
     (None, ?c\<lparr>code := write_all
        (map (\<lambda>(off, s). (off, PutUint32 (uint32
                (0x400000 + (case labels ?c s of Some k \<Rightarrow> int k | None \<Rightarrow> 0) + 0x40 + (2 * 0x38)))))
           ls) (code ?c)\<rparr>)"
    by (rule Cons.IH) (use Cons.prems len in auto)
  then show ?case using st by (simp add: a write_all_Cons)
qed


section \<open>The state after resolution\<close>

lemma range_orderD:
  assumes "range_order r"
  shows "mset (r m) = mset m" and "set (r m) = set m"
proof -
  show "mset (r m) = mset m" using assms by (simp add: range_order_def)
  then show "set (r m) = set m" by (metis mset_eq_setD)
qed

lemma data_writes_props:
  assumes "wf c"
  shows "separate (map fst (data_writes c)) (length (code c))"
    and "\<And>p bs. (p, bs) \<in> set (data_writes c) \<Longrightarrow> length bs = 4"
    and "\<And>p bs. (p, bs) \<in> set (data_writes c) \<Longrightarrow> p \<in> fst ` set (patches c)"
proof -
  have "map fst (data_writes c) = map fst (patches c)"
    by (simp add: data_writes_def case_prod_unfold comp_def)
  then show "separate (map fst (data_writes c)) (length (code c))"
    using assms separate_appendD(1) [of "map fst (patches c)" "map fst (labelTargets c)"]
    by (simp add: wf_def offsets_def)
  show "length bs = 4" if "(p, bs) \<in> set (data_writes c)" for p bs
    using that by (auto simp: data_writes_def)
  show "p \<in> fst ` set (patches c)" if "(p, bs) \<in> set (data_writes c)" for p bs
    using that by (force simp: data_writes_def)
qed

lemma label_writes_props:
  assumes "wf c"
  shows "separate (map fst (label_writes c)) (length (code c))"
    and "\<And>p bs. (p, bs) \<in> set (label_writes c) \<Longrightarrow> length bs = 4"
    and "\<And>p bs. (p, bs) \<in> set (label_writes c) \<Longrightarrow> p \<in> fst ` set (labelTargets c)"
proof -
  have "map fst (label_writes c) = map fst (labelTargets c)"
    by (simp add: label_writes_def case_prod_unfold comp_def)
  then show "separate (map fst (label_writes c)) (length (code c))"
    using assms separate_appendD(2) [of "map fst (patches c)" "map fst (labelTargets c)"]
    by (simp add: wf_def offsets_def)
  show "length bs = 4" if "(p, bs) \<in> set (label_writes c)" for p bs
    using that by (auto simp: label_writes_def)
  show "p \<in> fst ` set (labelTargets c)" if "(p, bs) \<in> set (label_writes c)" for p bs
    using that by (force simp: label_writes_def)
qed

lemma length_data_written:
  assumes "wf c"
  shows "length (write_all (data_writes c) (code c)) = length (code c)"
proof (rule length_write_all)
  show "p + length bs \<le> length (code c)" if "(p, bs) \<in> set (data_writes c)" for p bs
  proof -
    have "p \<in> set (map fst (data_writes c))" using that by force
    then have "p + 4 \<le> length (code c)"
      using data_writes_props(1) [OF assms] by (rule separate_bound [rotated])
    then show ?thesis using data_writes_props(2) [OF assms that] by simp
  qed
qed

lemma length_resolve:
  assumes "wf c"
  shows "length (code (resolve c)) = length (code c)"
proof -
  let ?cd = "write_all (data_writes c) (code c)"
  have "length (write_all (label_writes c) ?cd) = length ?cd"
  proof (rule length_write_all)
    show "p + length bs \<le> length ?cd" if "(p, bs) \<in> set (label_writes c)" for p bs
    proof -
      have "p \<in> set (map fst (label_writes c))" using that by force
      then have "p + 4 \<le> length (code c)"
        using label_writes_props(1) [OF assms] by (rule separate_bound [rotated])
      then show ?thesis
        using label_writes_props(2) [OF assms that] by (simp add: length_data_written [OF assms])
    qed
  qed
  then show ?thesis by (simp add: resolve_def length_data_written [OF assms])
qed

lemma resolve_label_window:
  assumes "wf c" and "(p, s) \<in> set (labelTargets c)"
  shows "window (code (resolve c)) p =
     PutUint32 (uint32 (0x400000 + (case labels c s of Some k \<Rightarrow> int k | None \<Rightarrow> 0) + 0x40 + (2 * 0x38)))"
proof -
  let ?cd = "write_all (data_writes c) (code c)"
  let ?bs = "PutUint32 (uint32 (0x400000 + (case labels c s of Some k \<Rightarrow> int k | None \<Rightarrow> 0) + 0x40 + (2 * 0x38)))"
  have mem: "(p, ?bs) \<in> set (label_writes c)"
    using assms(2) by (force simp: label_writes_def)
  have "separate (map fst (label_writes c)) (length ?cd)"
    using label_writes_props(1) [OF assms(1)] by (simp add: length_data_written [OF assms(1)])
  then have "window (write_all (label_writes c) ?cd) p = ?bs"
    using label_writes_props(2) [OF assms(1)] mem by (rule window_write_all_inside)
  then show ?thesis by (simp add: resolve_def)
qed

lemma resolve_data_window:
  assumes "wf c" and "(p, v) \<in> set (patches c)"
  shows "window (code (resolve c)) p =
     PutUint32 (uint32 (0x400000 + v + int (length (code c)) + 0x40 + (2 * 0x38)))"
proof -
  let ?cd = "write_all (data_writes c) (code c)"
  let ?bs = "PutUint32 (uint32 (0x400000 + v + int (length (code c)) + 0x40 + (2 * 0x38)))"
  have len: "length ?cd = length (code c)" by (rule length_data_written [OF assms(1)])
  have sep: "separate (map fst (patches c) @ map fst (labelTargets c)) (length (code c))"
    using assms(1) by (simp add: wf_def offsets_def)
  have pin: "p \<in> set (map fst (patches c))" using assms(2) by force
  have pb: "p + 4 \<le> length ?cd" using wf_bound_patch [OF assms] by (simp add: len)
  have mem: "(p, ?bs) \<in> set (data_writes c)"
    using assms(2) by (force simp: data_writes_def)
  have "window (write_all (label_writes c) ?cd) p = window ?cd p"
  proof (rule window_write_all_outside [OF _ pb])
    show "length bs = 4 \<and> q + 4 \<le> length ?cd \<and> apart p q"
      if "(q, bs) \<in> set (label_writes c)" for q bs
    proof -
      have q: "q \<in> set (map fst (labelTargets c))"
        using label_writes_props(3) [OF assms(1) that] by simp
      then have "q \<in> set (map fst (patches c) @ map fst (labelTargets c))" by simp
      then have "q + 4 \<le> length (code c)" using sep by (rule separate_bound [rotated])
      moreover have "apart p q" using sep pin q by (rule separate_appendD(3))
      ultimately show ?thesis using label_writes_props(2) [OF assms(1) that] by (simp add: len)
    qed
  qed
  also have "\<dots> = ?bs"
    using data_writes_props(1,2) [OF assms(1)] mem by (rule window_write_all_inside)
  finally show ?thesis by (simp add: resolve_def)
qed

lemma Compile_walked:
  assumes "range_order rp" and "range_order rl" and "wf c" and "walk stmts c0 = (None, c)"
  shows "Compile rp rl W stmts c0 =
     (map_option ElfWriteError (W (output_path c) (code (resolve c)) (data c)), resolve c)"
proof -
  let ?f = "\<lambda>(off, v). (off, PutUint32 (uint32 (0x400000 + v + int (length (code c)) + 0x40 + (2 * 0x38))))"
  let ?c1 = "c\<lparr>code := write_all (data_writes c) (code c)\<rparr>"
  let ?g = "\<lambda>(off, s). (off, PutUint32 (uint32
                (0x400000 + (case labels ?c1 s of Some k \<Rightarrow> int k | None \<Rightarrow> 0) + 0x40 + (2 * 0x38))))"
  have "applyPatches (rp (patches c)) c = (None, c\<lparr>code := write_all (map ?f (rp (patches c))) (code c)\<rparr>)"
    by (rule applyPatches_write_all)
      (use wf_bound_patch [OF assms(3)] range_orderD(2) [OF assms(1)] in auto)
  moreover have "write_all (map ?f (rp (patches c))) (code c) = write_all (data_writes c) (code c)"
  proof (rule write_all_perm [symmetric])
    show "mset (data_writes c) = mset (map ?f (rp (patches c)))"
      using range_orderD(1) [OF assms(1), of "patches c"]
      by (simp add: data_writes_def)
    show "separate (map fst (data_writes c)) (length (code c))"
      by (rule data_writes_props(1) [OF assms(3)])
    show "length bs = 4" if "(p, bs) \<in> set (data_writes c)" for p bs
      using that by (rule data_writes_props(2) [OF assms(3)])
  qed
  ultimately have data: "applyPatches (rp (patches c)) c = (None, ?c1)" by simp
  have len1: "length (code ?c1) = length (code c)" by (simp add: length_data_written [OF assms(3)])
  have "applyLabels (rl (labelTargets ?c1)) ?c1 =
          (None, ?c1\<lparr>code := write_all (map ?g (rl (labelTargets ?c1))) (code ?c1)\<rparr>)"
    by (rule applyLabels_write_all)
      (use wf_bound_label [OF assms(3)] range_orderD(2) [OF assms(2)] len1 in auto)
  moreover have "write_all (map ?g (rl (labelTargets ?c1))) (code ?c1) = write_all (label_writes c) (code ?c1)"
  proof (rule write_all_perm [symmetric])
    show "mset (label_writes c) = mset (map ?g (rl (labelTargets ?c1)))"
      using range_orderD(1) [OF assms(2), of "labelTargets c"]
      by (simp add: label_writes_def)
    show "separate (map fst (label_writes c)) (length (code ?c1))"
      using label_writes_props(1) [OF assms(3)] by (simp add: length_data_written [OF assms(3)])
    show "length bs = 4" if "(p, bs) \<in> set (label_writes c)" for p bs
      using that by (rule label_writes_props(2) [OF assms(3)])
  qed
  ultimately have lab: "applyLabels (rl (labelTargets ?c1)) ?c1 = (None, resolve c)"
    by (simp add: resolve_def)
  show ?thesis using data lab
    by (simp add: Compile_def assms(4) resolve_def split: option.splits)
qed


end
